theory Spec2Isabelle
  imports Main "HOL-Library.Multiset" "HOL-Library.Char_ord" "HOL-Library.List_Lexorder"
    "HOL-Library.Word"
begin

unbundle bit_operations_syntax

section \<open>The report generator of hack/cmd/report/main.go\<close>

text \<open>
  The program reads a JUnit-style XML report, builds a table with one row per test case,
  counts the failed and passed rows and prints the result as markdown. Go strings are
  byte sequences and are compared byte by byte; they are modelled as \<^typ>\<open>string\<close>
  with the lexicographic order of \<open>List_Lexorder\<close> over the byte order of \<open>Char_ord\<close>.
\<close>

subsection \<open>Constants\<close>

definition Failed :: string where
  "Failed = '':x: Failed''"

definition Passed :: string where
  "Passed = '':white_check_mark: Passed''"

subsection \<open>Errors\<close>

text \<open>
  A \<open>panic\<close> of the Go runtime and the three wrapped errors that \<open>generateMarkdown\<close>
  returns (\<open>fmt.Errorf\<close> with \<open>%w\<close>); each wrapped error carries the text of its cause.
\<close>

datatype error =
    Panic string
  | OpenError string
  | ReadError string
  | UnmarshalError string

subsection \<open>Table\<close>

record Table =
  Headers :: "string list"
  Separator :: "string list"
  Rows :: "string list list"

definition NewTable :: "string list \<Rightarrow> Table" where
  "NewTable headers =
     \<lparr>Headers = headers, Separator = replicate (length headers) [], Rows = []\<rparr>"

definition Add :: "Table \<Rightarrow> string list \<Rightarrow> error + Table" where
  "Add t row =
     (if length row \<noteq> length (Headers t)
      then Inl (Panic ''row length does not match header length'')
      else Inr (t\<lparr>Rows := Rows t @ [row]\<rparr>))"

subsection \<open>Report\<close>

text \<open>
  The counters are Go \<open>int\<close>s that start at 0 and are incremented once per row at most;
  a slice has fewer than \<open>2^63\<close> elements, so they never wrap and are modelled as \<^typ>\<open>nat\<close>.
\<close>

record Report =
  Time :: string
  Timestamp :: string
  Table :: Table
  OK :: bool
  Failures :: nat
  Passes :: nat

fun contains :: "string list \<Rightarrow> string \<Rightarrow> bool" where
  "contains [] val = False"
| "contains (v # elems) val = (if v = val then True else contains elems val)"

text \<open>The loop of \<open>NewReport\<close> over the rows, with its two counters.\<close>

fun count_rows :: "string list list \<Rightarrow> nat \<Rightarrow> nat \<Rightarrow> nat \<times> nat" where
  "count_rows [] failures passes = (failures, passes)"
| "count_rows (row # rows) failures passes =
     (if contains row Failed then count_rows rows (failures + 1) passes
      else if contains row Passed then count_rows rows failures (passes + 1)
      else count_rows rows failures passes)"

definition NewReport :: "string \<Rightarrow> string \<Rightarrow> Table \<Rightarrow> Report" where
  "NewReport time timestamp table =
     (case count_rows (Rows table) 0 0 of (failures, passes) \<Rightarrow>
        \<lparr>Time = time, Timestamp = timestamp, Table = table,
         OK = (failures = 0), Failures = failures, Passes = passes\<rparr>)"

definition ifElse :: "bool \<Rightarrow> string \<Rightarrow> string \<Rightarrow> string" where
  "ifElse condition trueVal falseVal = (if condition then trueVal else falseVal)"

subsection \<open>The parsed document\<close>

text \<open>
  The fields of the three XML structs; \<open>Failure\<close> is a \<open>*string\<close>, \<open>None\<close> is \<open>nil\<close>.
  The field names carry the struct's name because the structs share \<open>Name\<close> and \<open>Time\<close>.
\<close>

record TestCase =
  case_Name :: string
  case_Time :: string
  case_Failure :: "string option"

record TestSuite =
  suite_Name :: string
  suite_TestCase :: "TestCase list"

record TestSuites =
  doc_TestSuite :: "TestSuite list"
  doc_Time :: string
  doc_Timestamp :: string

subsection \<open>The aggregation loops of generateMarkdown\<close>

definition case_status :: "TestCase \<Rightarrow> string" where
  "case_status testcase = (if case_Failure testcase \<noteq> None then Failed else Passed)"

definition case_row :: "string \<Rightarrow> TestCase \<Rightarrow> string list" where
  "case_row suiteName testcase =
     [suiteName, case_Name testcase, [CHR 0x60] @ case_Time testcase @ [CHR 0x60],
      case_status testcase]"

fun add_cases :: "string \<Rightarrow> TestCase list \<Rightarrow> Table \<Rightarrow> error + Table" where
  "add_cases suiteName [] table = Inr table"
| "add_cases suiteName (testcase # rest) table =
     (case Add table (case_row suiteName testcase) of
        Inl e \<Rightarrow> Inl e
      | Inr table' \<Rightarrow> add_cases suiteName rest table')"

fun add_suites :: "TestSuite list \<Rightarrow> Table \<Rightarrow> error + Table" where
  "add_suites [] table = Inr table"
| "add_suites (suite # rest) table =
     (case add_cases (suite_Name suite) (suite_TestCase suite) table of
        Inl e \<Rightarrow> Inl e
      | Inr table' \<Rightarrow> add_suites rest table')"

definition report_headers :: "string list" where
  "report_headers = [''Test Suite'', ''Test Case'', ''Time (s)'', ''Status'']"

definition build_table :: "TestSuites \<Rightarrow> error + Table" where
  "build_table testSuites = add_suites (doc_TestSuite testSuites) (NewTable report_headers)"

definition build_report :: "TestSuites \<Rightarrow> error + Report" where
  "build_report testSuites =
     (case build_table testSuites of
        Inl e \<Rightarrow> Inl e
      | Inr table \<Rightarrow> Inr (NewReport (doc_Time testSuites) (doc_Timestamp testSuites) table))"

text \<open>The rows that the two loops append, in document order.\<close>

definition suite_rows :: "TestSuite \<Rightarrow> string list list" where
  "suite_rows suite = map (case_row (suite_Name suite)) (suite_TestCase suite)"

definition document_rows :: "TestSuites \<Rightarrow> string list list" where
  "document_rows testSuites = concat (map suite_rows (doc_TestSuite testSuites))"

definition case_count :: "TestSuites \<Rightarrow> nat" where
  "case_count testSuites = sum_list (map (\<lambda>suite. length (suite_TestCase suite)) (doc_TestSuite testSuites))"

section \<open>sort.Slice\<close>

text \<open>
  \<open>Report.Print\<close> sorts the rows with \<open>sort.Slice\<close> of the Go standard library, which
  is the pattern-defeating quicksort \<open>pdqsort_func\<close> of \<open>sort/zsortfunc.go\<close> (Go 1.19 and
  later) run on the whole slice. The slice is a list, \<open>data.Less(i, j)\<close> is
  \<open>lessf (data ! i) (data ! j)\<close> and \<open>data.Swap(i, j)\<close> is \<open>swap data i j\<close>. Indices are
  Go \<open>int\<close>s that stay between 0 and the length of the slice; they are modelled as
  \<^typ>\<open>nat\<close>. Every loop is a recursive function named after the function it belongs to.
\<close>


definition swap :: "'a list \<Rightarrow> nat \<Rightarrow> nat \<Rightarrow> 'a list" where
  "swap data i j = data[i := data ! j, j := data ! i]"

function insertion_shift :: "('a \<Rightarrow> 'a \<Rightarrow> bool) \<Rightarrow> 'a list \<Rightarrow> nat \<Rightarrow> nat \<Rightarrow> 'a list" where
  "insertion_shift lessf data a j =
     (if j > a \<and> lessf (data ! j) (data ! (j - 1))
      then insertion_shift lessf (swap data j (j - 1)) a (j - 1)
      else data)"
  by pat_completeness auto
termination
  by (relation "measure (\<lambda>(lessf, data, a, j). j)") auto

function insertion_loop :: "('a \<Rightarrow> 'a \<Rightarrow> bool) \<Rightarrow> 'a list \<Rightarrow> nat \<Rightarrow> nat \<Rightarrow> nat \<Rightarrow> 'a list" where
  "insertion_loop lessf data a b i =
     (if i < b then insertion_loop lessf (insertion_shift lessf data a i) a b (i + 1) else data)"
  by pat_completeness auto
termination
  by (relation "measure (\<lambda>(lessf, data, a, b, i). b - i)") auto

definition insertionSort_func :: "('a \<Rightarrow> 'a \<Rightarrow> bool) \<Rightarrow> 'a list \<Rightarrow> nat \<Rightarrow> nat \<Rightarrow> 'a list" where
  "insertionSort_func lessf data a b = insertion_loop lessf data a b (a + 1)"

function siftDown_func :: "('a \<Rightarrow> 'a \<Rightarrow> bool) \<Rightarrow> 'a list \<Rightarrow> nat \<Rightarrow> nat \<Rightarrow> nat \<Rightarrow> 'a list" where
  "siftDown_func lessf data root hi first =
     (let child = 2 * root + 1 in
      if child \<ge> hi then data
      else
        let child = (if child + 1 < hi \<and> lessf (data ! (first + child)) (data ! (first + child + 1))
                     then child + 1 else child) in
        if \<not> lessf (data ! (first + root)) (data ! (first + child)) then data
        else siftDown_func lessf (swap data (first + root) (first + child)) child hi first)"
  by pat_completeness auto
termination
  by (relation "measure (\<lambda>(lessf, data, root, hi, first). hi - root)") (auto split: if_splits)

primrec heap_build :: "('a \<Rightarrow> 'a \<Rightarrow> bool) \<Rightarrow> 'a list \<Rightarrow> nat \<Rightarrow> nat \<Rightarrow> nat \<Rightarrow> 'a list" where
  "heap_build lessf data 0 hi first = siftDown_func lessf data 0 hi first"
| "heap_build lessf data (Suc i) hi first =
     heap_build lessf (siftDown_func lessf data (Suc i) hi first) i hi first"

primrec heap_pop :: "('a \<Rightarrow> 'a \<Rightarrow> bool) \<Rightarrow> 'a list \<Rightarrow> nat \<Rightarrow> nat \<Rightarrow> 'a list" where
  "heap_pop lessf data 0 first = data"
| "heap_pop lessf data (Suc i) first =
     heap_pop lessf (siftDown_func lessf (swap data first (first + i)) 0 i first) i first"

definition heapSort_func :: "('a \<Rightarrow> 'a \<Rightarrow> bool) \<Rightarrow> 'a list \<Rightarrow> nat \<Rightarrow> nat \<Rightarrow> 'a list" where
  "heapSort_func lessf data a b =
     (let first = a; hi = b - a in
      heap_pop lessf (heap_build lessf data ((hi - 1) div 2) hi first) hi first)"

function partition_up :: "('a \<Rightarrow> 'a \<Rightarrow> bool) \<Rightarrow> 'a list \<Rightarrow> nat \<Rightarrow> nat \<Rightarrow> nat \<Rightarrow> nat" where
  "partition_up lessf data a i j =
     (if i \<le> j \<and> lessf (data ! i) (data ! a) then partition_up lessf data a (i + 1) j else i)"
  by pat_completeness auto
termination
  by (relation "measure (\<lambda>(lessf, data, a, i, j). Suc j - i)") auto

function partition_down :: "('a \<Rightarrow> 'a \<Rightarrow> bool) \<Rightarrow> 'a list \<Rightarrow> nat \<Rightarrow> nat \<Rightarrow> nat \<Rightarrow> nat" where
  "partition_down lessf data a i j =
     (if 0 < j \<and> i \<le> j \<and> \<not> lessf (data ! j) (data ! a)
      then partition_down lessf data a i (j - 1) else j)"
  by pat_completeness auto
termination
  by (relation "measure (\<lambda>(lessf, data, a, i, j). j)") auto




declare insertion_shift.simps [simp del] insertion_loop.simps [simp del]
  siftDown_func.simps [simp del] partition_up.simps [simp del] partition_down.simps [simp del]

text \<open>The two scans move towards each other; this is what makes the loop around them end.\<close>

lemma partition_up_ge: "i \<le> partition_up lessf data a i j"
proof (induction lessf data a i j rule: partition_up.induct)
  case (1 lessf data a i j)
  show ?case
    using 1 by (subst partition_up.simps) auto
qed

lemma partition_down_le: "partition_down lessf data a i j \<le> j"
proof (induction lessf data a i j rule: partition_down.induct)
  case (1 lessf data a i j)
  show ?case
    using 1 by (subst partition_down.simps) auto
qed

function partition_loop :: "('a \<Rightarrow> 'a \<Rightarrow> bool) \<Rightarrow> 'a list \<Rightarrow> nat \<Rightarrow> nat \<Rightarrow> nat \<Rightarrow> 'a list \<times> nat" where
  "partition_loop lessf data a i j =
     (let i = partition_up lessf data a i j;
          j = partition_down lessf data a i j in
      if i > j then (data, j)
      else partition_loop lessf (swap data i j) a (i + 1) (j - 1))"
  by pat_completeness auto
termination
proof (relation "measure (\<lambda>(lessf, data, a, i, j). Suc j - i)", goal_cases)
  case 1
  show ?case by simp
next
  case (2 lessf data a i j i' j')
  have "i \<le> i'" using 2 partition_up_ge by metis
  moreover have "j' \<le> j" using 2 partition_down_le by metis
  ultimately show ?case using 2 by auto
qed

declare partition_loop.simps [simp del]

definition partition_func ::
  "('a \<Rightarrow> 'a \<Rightarrow> bool) \<Rightarrow> 'a list \<Rightarrow> nat \<Rightarrow> nat \<Rightarrow> nat \<Rightarrow> 'a list \<times> nat \<times> bool" where
  "partition_func lessf data a b pivot =
     (let data = swap data a pivot;
          i = a + 1;
          j = b - 1;
          i = partition_up lessf data a i j;
          j = partition_down lessf data a i j in
      if i > j then (swap data j a, j, True)
      else
        (case partition_loop lessf (swap data i j) a (i + 1) (j - 1) of
           (data, j) \<Rightarrow> (swap data j a, j, False)))"

function partitionEqual_up :: "('a \<Rightarrow> 'a \<Rightarrow> bool) \<Rightarrow> 'a list \<Rightarrow> nat \<Rightarrow> nat \<Rightarrow> nat \<Rightarrow> nat" where
  "partitionEqual_up lessf data a i j =
     (if i \<le> j \<and> \<not> lessf (data ! a) (data ! i) then partitionEqual_up lessf data a (i + 1) j else i)"
  by pat_completeness auto
termination
  by (relation "measure (\<lambda>(lessf, data, a, i, j). Suc j - i)") auto

function partitionEqual_down :: "('a \<Rightarrow> 'a \<Rightarrow> bool) \<Rightarrow> 'a list \<Rightarrow> nat \<Rightarrow> nat \<Rightarrow> nat \<Rightarrow> nat" where
  "partitionEqual_down lessf data a i j =
     (if 0 < j \<and> i \<le> j \<and> lessf (data ! a) (data ! j)
      then partitionEqual_down lessf data a i (j - 1) else j)"
  by pat_completeness auto
termination
  by (relation "measure (\<lambda>(lessf, data, a, i, j). j)") auto

declare partitionEqual_up.simps [simp del] partitionEqual_down.simps [simp del]

lemma partitionEqual_up_ge: "i \<le> partitionEqual_up lessf data a i j"
proof (induction lessf data a i j rule: partitionEqual_up.induct)
  case (1 lessf data a i j)
  show ?case
    using 1 by (subst partitionEqual_up.simps) auto
qed

lemma partitionEqual_down_le: "partitionEqual_down lessf data a i j \<le> j"
proof (induction lessf data a i j rule: partitionEqual_down.induct)
  case (1 lessf data a i j)
  show ?case
    using 1 by (subst partitionEqual_down.simps) auto
qed

function partitionEqual_loop :: "('a \<Rightarrow> 'a \<Rightarrow> bool) \<Rightarrow> 'a list \<Rightarrow> nat \<Rightarrow> nat \<Rightarrow> nat \<Rightarrow> 'a list \<times> nat" where
  "partitionEqual_loop lessf data a i j =
     (let i = partitionEqual_up lessf data a i j;
          j = partitionEqual_down lessf data a i j in
      if i > j then (data, i)
      else partitionEqual_loop lessf (swap data i j) a (i + 1) (j - 1))"
  by pat_completeness auto
termination
proof (relation "measure (\<lambda>(lessf, data, a, i, j). Suc j - i)", goal_cases)
  case 1
  show ?case by simp
next
  case (2 lessf data a i j i' j')
  have "i \<le> i'" using 2 partitionEqual_up_ge by metis
  moreover have "j' \<le> j" using 2 partitionEqual_down_le by metis
  ultimately show ?case using 2 by auto
qed

declare partitionEqual_loop.simps [simp del]

definition partitionEqual_func ::
  "('a \<Rightarrow> 'a \<Rightarrow> bool) \<Rightarrow> 'a list \<Rightarrow> nat \<Rightarrow> nat \<Rightarrow> nat \<Rightarrow> 'a list \<times> nat" where
  "partitionEqual_func lessf data a b pivot =
     (let data = swap data a pivot;
          i = a + 1;
          j = b - 1 in
      partitionEqual_loop lessf data a i j)"

function partial_scan :: "('a \<Rightarrow> 'a \<Rightarrow> bool) \<Rightarrow> 'a list \<Rightarrow> nat \<Rightarrow> nat \<Rightarrow> nat" where
  "partial_scan lessf data i b =
     (if i < b \<and> \<not> lessf (data ! i) (data ! (i - 1)) then partial_scan lessf data (i + 1) b else i)"
  by pat_completeness auto
termination
  by (relation "measure (\<lambda>(lessf, data, i, b). b - i)") auto

function shift_left :: "('a \<Rightarrow> 'a \<Rightarrow> bool) \<Rightarrow> 'a list \<Rightarrow> nat \<Rightarrow> 'a list" where
  "shift_left lessf data j =
     (if j \<ge> 1 then
        (if \<not> lessf (data ! j) (data ! (j - 1)) then data
         else shift_left lessf (swap data j (j - 1)) (j - 1))
      else data)"
  by pat_completeness auto
termination
  by (relation "measure (\<lambda>(lessf, data, j). j)") auto

function shift_right :: "('a \<Rightarrow> 'a \<Rightarrow> bool) \<Rightarrow> 'a list \<Rightarrow> nat \<Rightarrow> nat \<Rightarrow> 'a list" where
  "shift_right lessf data j b =
     (if j < b then
        (if \<not> lessf (data ! j) (data ! (j - 1)) then data
         else shift_right lessf (swap data j (j - 1)) (j + 1) b)
      else data)"
  by pat_completeness auto
termination
  by (relation "measure (\<lambda>(lessf, data, j, b). b - j)") auto

declare partial_scan.simps [simp del] shift_left.simps [simp del] shift_right.simps [simp del]

fun partial_steps ::
  "('a \<Rightarrow> 'a \<Rightarrow> bool) \<Rightarrow> 'a list \<Rightarrow> nat \<Rightarrow> nat \<Rightarrow> nat \<Rightarrow> nat \<Rightarrow> 'a list \<times> bool" where
  "partial_steps lessf data a b i 0 = (data, False)"
| "partial_steps lessf data a b i (Suc steps) =
     (let i = partial_scan lessf data i b in
      if i = b then (data, True)
      else if b - a < 50 then (data, False)
      else
        let data = swap data i (i - 1);
            data = (if i - a \<ge> 2 then shift_left lessf data (i - 1) else data);
            data = (if b - i \<ge> 2 then shift_right lessf data (i + 1) b else data) in
        partial_steps lessf data a b i steps)"

definition partialInsertionSort_func ::
  "('a \<Rightarrow> 'a \<Rightarrow> bool) \<Rightarrow> 'a list \<Rightarrow> nat \<Rightarrow> nat \<Rightarrow> 'a list \<times> bool" where
  "partialInsertionSort_func lessf data a b = partial_steps lessf data a b (a + 1) 5"

fun bits_Len :: "nat \<Rightarrow> nat" where
  "bits_Len n = (if n = 0 then 0 else Suc (bits_Len (n div 2)))"

declare bits_Len.simps [simp del]

definition xorshift_Next :: "64 word \<Rightarrow> 64 word" where
  "xorshift_Next r =
     (let r = r XOR push_bit 13 r;
          r = r XOR drop_bit 7 r;
          r = r XOR push_bit 17 r in r)"

definition nextPowerOfTwo :: "nat \<Rightarrow> 64 word" where
  "nextPowerOfTwo len = push_bit (bits_Len len) 1"

text \<open>
  The loop of \<open>breakPatterns_func\<close> swaps the three positions around the middle of the
  range, \<open>idx - 1\<close>, \<open>idx\<close> and \<open>idx + 1\<close> for \<open>idx = a + (len div 4) * 2\<close>, with
  positions drawn from the generator.
\<close>

fun breakPatterns_swaps ::
  "'a list \<Rightarrow> nat \<Rightarrow> nat \<Rightarrow> 64 word \<Rightarrow> 64 word \<Rightarrow> nat \<Rightarrow> nat \<Rightarrow> nat \<Rightarrow> 'a list" where
  "breakPatterns_swaps data a len random modulus idx i 0 = data"
| "breakPatterns_swaps data a len random modulus idx i (Suc n) =
     (let random = xorshift_Next random;
          other = unat (random AND (modulus - 1));
          other = (if other \<ge> len then other - len else other) in
      breakPatterns_swaps (swap data (idx - 1 + i) (a + other)) a len random modulus idx (i + 1) n)"

definition breakPatterns_func :: "'a list \<Rightarrow> nat \<Rightarrow> nat \<Rightarrow> 'a list" where
  "breakPatterns_func data a b =
     (let len = b - a in
      if len \<ge> 8 then
        (let random = word_of_nat len;
             modulus = nextPowerOfTwo len;
             idx = a + (len div 4) * 2 in
         breakPatterns_swaps data a len random modulus idx 0 3)
      else data)"

datatype sortedHint = unknownHint | increasingHint | decreasingHint

definition order2_func ::
  "('a \<Rightarrow> 'a \<Rightarrow> bool) \<Rightarrow> 'a list \<Rightarrow> nat \<Rightarrow> nat \<Rightarrow> nat \<Rightarrow> nat \<times> nat \<times> nat" where
  "order2_func lessf data a b swaps =
     (if lessf (data ! b) (data ! a) then (b, a, swaps + 1) else (a, b, swaps))"

definition median_func ::
  "('a \<Rightarrow> 'a \<Rightarrow> bool) \<Rightarrow> 'a list \<Rightarrow> nat \<Rightarrow> nat \<Rightarrow> nat \<Rightarrow> nat \<Rightarrow> nat \<times> nat" where
  "median_func lessf data a b c swaps =
     (case order2_func lessf data a b swaps of (a, b, swaps) \<Rightarrow>
      case order2_func lessf data b c swaps of (b, c, swaps) \<Rightarrow>
      case order2_func lessf data a b swaps of (a, b, swaps) \<Rightarrow>
        (b, swaps))"

definition medianAdjacent_func ::
  "('a \<Rightarrow> 'a \<Rightarrow> bool) \<Rightarrow> 'a list \<Rightarrow> nat \<Rightarrow> nat \<Rightarrow> nat \<times> nat" where
  "medianAdjacent_func lessf data a swaps = median_func lessf data (a - 1) a (a + 1) swaps"

definition choosePivot_func ::
  "('a \<Rightarrow> 'a \<Rightarrow> bool) \<Rightarrow> 'a list \<Rightarrow> nat \<Rightarrow> nat \<Rightarrow> nat \<times> sortedHint" where
  "choosePivot_func lessf data a b =
     (let l = b - a;
          swaps = 0;
          i = a + l div 4 * 1;
          j = a + l div 4 * 2;
          k = a + l div 4 * 3 in
      case
        (if l \<ge> 8 then
           (case
              (if l \<ge> 50 then
                 (case medianAdjacent_func lessf data i swaps of (i, swaps) \<Rightarrow>
                  case medianAdjacent_func lessf data j swaps of (j, swaps) \<Rightarrow>
                  case medianAdjacent_func lessf data k swaps of (k, swaps) \<Rightarrow>
                    (i, j, k, swaps))
               else (i, j, k, swaps))
            of (i, j, k, swaps) \<Rightarrow> median_func lessf data i j k swaps)
         else (j, swaps))
      of (j, swaps) \<Rightarrow>
        if swaps = 0 then (j, increasingHint)
        else if swaps = 12 then (j, decreasingHint)
        else (j, unknownHint))"

function reverse_loop :: "'a list \<Rightarrow> nat \<Rightarrow> nat \<Rightarrow> 'a list" where
  "reverse_loop data i j =
     (if i < j then reverse_loop (swap data i j) (i + 1) (j - 1) else data)"
  by pat_completeness auto
termination
  by (relation "measure (\<lambda>(data, i, j). j - i)") auto

declare reverse_loop.simps [simp del]

definition reverseRange_func :: "'a list \<Rightarrow> nat \<Rightarrow> nat \<Rightarrow> 'a list" where
  "reverseRange_func data a b = reverse_loop data a (b - 1)"

definition pdqsort_choose ::
  "('a \<Rightarrow> 'a \<Rightarrow> bool) \<Rightarrow> 'a list \<Rightarrow> nat \<Rightarrow> nat \<Rightarrow> nat \<Rightarrow> bool \<Rightarrow>
     'a list \<times> nat \<times> nat \<times> sortedHint" where
  "pdqsort_choose lessf data a b limit wasBalanced =
     (let data = (if \<not> wasBalanced then breakPatterns_func data a b else data);
          limit = (if \<not> wasBalanced then limit - 1 else limit) in
      case choosePivot_func lessf data a b of (pivot, hint) \<Rightarrow>
        if hint = decreasingHint
        then (reverseRange_func data a b, limit, (b - 1) - (pivot - a), increasingHint)
        else (data, limit, pivot, hint))"

lemma partition_down_ge: "i \<le> Suc j \<Longrightarrow> i \<le> Suc (partition_down lessf data a i j)"
proof (induction lessf data a i j rule: partition_down.induct)
  case (1 lessf data a i j)
  show ?case
    using 1 by (subst partition_down.simps) auto
qed

lemma partition_up_le: "i \<le> Suc j \<Longrightarrow> partition_up lessf data a i j \<le> Suc j"
proof (induction lessf data a i j rule: partition_up.induct)
  case (1 lessf data a i j)
  show ?case
    using 1 by (subst partition_up.simps) auto
qed

lemma partition_loop_range:
  "partition_loop lessf data a i j = (data', m) \<Longrightarrow> m \<le> j \<and> (i \<le> j + 2 \<longrightarrow> i \<le> m + 2)"
proof (induction lessf data a i j arbitrary: data' m rule: partition_loop.induct)
  case (1 lessf data a i j)
  define i' where "i' = partition_up lessf data a i j"
  define j' where "j' = partition_down lessf data a i' j"
  have i': "i \<le> i'" and j': "j' \<le> j"
    by (simp_all add: i'_def j'_def partition_up_ge partition_down_le)
  show ?case
  proof (cases "i' > j'")
    case True
    then have m: "m = j'"
      using "1.prems" by (subst (asm) partition_loop.simps) (auto simp add: Let_def i'_def j'_def)
    have "i \<le> j + 2 \<longrightarrow> i \<le> j' + 2"
    proof
      assume "i \<le> j + 2"
      show "i \<le> j' + 2"
      proof (cases "i' \<le> Suc j")
        case True
        then have "i' \<le> Suc j'" unfolding j'_def by (rule partition_down_ge)
        then show ?thesis using i' by simp
      next
        case False
        then have "j' = j" unfolding j'_def by (subst partition_down.simps) simp
        then show ?thesis using \<open>i \<le> j + 2\<close> by simp
      qed
    qed
    then show ?thesis using m j' by simp
  next
    case False
    then have eq: "partition_loop lessf (swap data i' j') a (i' + 1) (j' - 1) = (data', m)"
      using "1.prems" by (subst (asm) partition_loop.simps) (simp add: Let_def i'_def j'_def)
    have "m \<le> j' - 1 \<and> (i' + 1 \<le> j' - 1 + 2 \<longrightarrow> i' + 1 \<le> m + 2)"
      using False by (intro "1.IH"[OF i'_def j'_def _ eq]) simp
    then show ?thesis using False i' j' by auto
  qed
qed

lemma partition_func_range:
  assumes "partition_func lessf data a b pivot = (data', mid, ap)" and "a < b"
  shows "a \<le> mid \<and> mid < b"
proof -
  define d where "d = swap data a pivot"
  define i where "i = partition_up lessf d a (a + 1) (b - 1)"
  define j where "j = partition_down lessf d a i (b - 1)"
  have i: "a + 1 \<le> i" and iu: "i \<le> b" and j: "j \<le> b - 1"
    using partition_up_le[of "a + 1" "b - 1" lessf d a] assms(2)
    by (simp_all add: i_def j_def partition_up_ge partition_down_le)
  have ij: "i \<le> Suc j"
    unfolding j_def using iu assms(2) by (intro partition_down_ge) simp
  show ?thesis
  proof (cases "i > j")
    case True
    then have "mid = j"
      using assms(1) by (simp add: partition_func_def Let_def d_def i_def j_def)
    then show ?thesis using i ij j assms(2) by simp
  next
    case False
    then obtain d' where eq: "partition_loop lessf (swap d i j) a (i + 1) (j - 1) = (d', mid)"
      using assms(1) by (auto simp add: partition_func_def Let_def d_def i_def j_def split: prod.splits)
    have "mid \<le> j - 1 \<and> (i + 1 \<le> j - 1 + 2 \<longrightarrow> i + 1 \<le> mid + 2)"
      by (rule partition_loop_range[OF eq])
    then show ?thesis using False i j assms(2) by auto
  qed
qed

lemma partitionEqual_loop_gt:
  "partitionEqual_loop lessf data a i j = (data', m) \<Longrightarrow> i \<le> m"
proof (induction lessf data a i j arbitrary: data' m rule: partitionEqual_loop.induct)
  case (1 lessf data a i j)
  define i' where "i' = partitionEqual_up lessf data a i j"
  define j' where "j' = partitionEqual_down lessf data a i' j"
  have i': "i \<le> i'"
    by (simp add: i'_def partitionEqual_up_ge)
  show ?case
  proof (cases "i' > j'")
    case True
    then have "m = i'"
      using "1.prems" by (subst (asm) partitionEqual_loop.simps) (auto simp add: Let_def i'_def j'_def)
    then show ?thesis using i' by simp
  next
    case False
    then have eq: "partitionEqual_loop lessf (swap data i' j') a (i' + 1) (j' - 1) = (data', m)"
      using "1.prems" by (subst (asm) partitionEqual_loop.simps) (simp add: Let_def i'_def j'_def)
    have "i' + 1 \<le> m"
      using False by (intro "1.IH"[OF i'_def j'_def _ eq]) simp
    then show ?thesis using i' by simp
  qed
qed

lemma partitionEqual_func_gt:
  "partitionEqual_func lessf data a b pivot = (data', mid) \<Longrightarrow> a < mid"
  using partitionEqual_loop_gt[of lessf "swap data a pivot" a "a + 1" "b - 1" data' mid]
  by (simp add: partitionEqual_func_def Let_def)

function pdqsort_func ::
  "('a \<Rightarrow> 'a \<Rightarrow> bool) \<Rightarrow> 'a list \<Rightarrow> nat \<Rightarrow> nat \<Rightarrow> nat \<Rightarrow> bool \<Rightarrow> bool \<Rightarrow> 'a list" where
  "pdqsort_func lessf data a b limit wasBalanced wasPartitioned =
     (if b - a \<le> 12 then insertionSort_func lessf data a b
      else if limit = 0 then heapSort_func lessf data a b
      else
        case pdqsort_choose lessf data a b limit wasBalanced of (data, limit, pivot, hint) \<Rightarrow>
        case (if wasBalanced \<and> wasPartitioned \<and> hint = increasingHint
              then partialInsertionSort_func lessf data a b else (data, False)) of (data, done) \<Rightarrow>
        if done then data
        else if a > 0 \<and> \<not> lessf (data ! (a - 1)) (data ! pivot) then
          (case partitionEqual_func lessf data a b pivot of (data, mid) \<Rightarrow>
             pdqsort_func lessf data mid b limit wasBalanced wasPartitioned)
        else
          (case partition_func lessf data a b pivot of (data, mid, alreadyPartitioned) \<Rightarrow>
             let leftLen = mid - a;
                 rightLen = b - mid;
                 balanceThreshold = (b - a) div 8 in
             if leftLen < rightLen then
               pdqsort_func lessf (pdqsort_func lessf data a mid limit True True)
                 (mid + 1) b limit (leftLen \<ge> balanceThreshold) alreadyPartitioned
             else
               pdqsort_func lessf (pdqsort_func lessf data (mid + 1) b limit True True)
                 a mid limit (rightLen \<ge> balanceThreshold) alreadyPartitioned))"
  by pat_completeness auto
termination
  apply (relation "measure (\<lambda>(lessf, data, a, b, limit, wb, wp). b - a)")
  apply simp
      apply (auto dest!: partition_func_range[OF sym] partitionEqual_func_gt[OF sym])
  done

declare pdqsort_func.simps [simp del]

definition Slice :: "('a \<Rightarrow> 'a \<Rightarrow> bool) \<Rightarrow> 'a list \<Rightarrow> 'a list" where
  "Slice lessf x =
     (let len = length x;
          limit = bits_Len len in
      pdqsort_func lessf x 0 len limit True True)"


section \<open>Rendering and the entry point\<close>

subsection \<open>Formatting\<close>

definition newline :: string where
  "newline = [CHR 0x0A]"

definition backtick :: string where
  "backtick = [CHR 0x60]"

text \<open>The verb \<open>%d\<close> of \<open>fmt\<close> on a non-negative integer.\<close>

fun Sprint_d :: "nat \<Rightarrow> string" where
  "Sprint_d n =
     (if n < 10 then [char_of (48 + n)] else Sprint_d (n div 10) @ [char_of (48 + n mod 10)])"

declare Sprint_d.simps [simp del]

fun Join :: "string list \<Rightarrow> string \<Rightarrow> string" where
  "Join [] sep = []"
| "Join [e] sep = e"
| "Join (e # f # elems) sep = e @ sep @ Join (f # elems) sep"

definition Fprintln :: "string \<Rightarrow> string \<Rightarrow> string" where
  "Fprintln w s = w @ s @ newline"

subsection \<open>Report.Print\<close>

text \<open>
  The comparator of \<open>Print\<close> reads the last field of both rows,
  \<open>Rows[i][len(Rows[i])-1] > Rows[j][len(Rows[j])-1]\<close>. On an empty row the index is
  \<open>-1\<close> and the Go runtime panics. \<open>sort.Slice\<close> never calls the comparator on a slice of
  fewer than two rows and compares every row of a longer slice at least once, so the sort
  panics exactly when \<open>sort_panics\<close> holds; on every other table \<open>last\<close> is the field
  that the comparator reads.
\<close>

definition status_less :: "string list \<Rightarrow> string list \<Rightarrow> bool" where
  "status_less ri rj = (last ri > last rj)"

definition sort_panics :: "string list list \<Rightarrow> bool" where
  "sort_panics rows = (length rows \<ge> 2 \<and> [] \<in> set rows)"

fun print_rows :: "string list list \<Rightarrow> string \<Rightarrow> string" where
  "print_rows [] w = w"
| "print_rows (row # rows) w = print_rows rows (Fprintln w (Join row ''|''))"

text \<open>
  The writer is the sequence of bytes written so far; \<open>Print\<close> ignores the results of its
  writes. \<open>Print\<close> sorts the rows of the table it points to in place, so the model returns
  the report after the call together with the writer.
\<close>

definition print_header :: "Report \<Rightarrow> string \<Rightarrow> string" where
  "print_header r w =
     (let w = w @ ''## E2E report '' @ ifElse (OK r) Passed Failed @ newline;
          w = w @ ''Started at '' @ backtick @ Timestamp r @ backtick @ '' took '' @ backtick
                @ Time r @ backtick @ newline @ newline;
          w = w @ ''![](https://img.shields.io/badge/tests-'' @ Sprint_d (Passes r)
                @ ''_passed%2C_'' @ Sprint_d (Failures r) @ ''_failed-''
                @ ifElse (OK r) ''green'' ''red'' @ '')'' @ newline @ newline;
          w = Fprintln w (Join (Headers (Table r)) ''|'');
          w = Fprintln w (Join (Separator (Table r)) ''|'') in
      w)"

definition Print :: "Report \<Rightarrow> string \<Rightarrow> (error + Report) \<times> string" where
  "Print r w =
     (let w = print_header r w in
      if sort_panics (Rows (Table r))
      then (Inl (Panic ''runtime error: index out of range [-1]''), w)
      else
        let rows = Slice status_less (Rows (Table r));
            r = r\<lparr>Table := (Table r)\<lparr>Rows := rows\<rparr>\<rparr> in
        (Inr r, print_rows rows w))"

subsection \<open>generateMarkdown and main\<close>

text \<open>
  The operating system and \<open>encoding/xml\<close> are outside the repository: opening a file,
  reading it, creating the output file and \<open>xml.Unmarshal\<close> are parameters of the model.
  Each returns the text of its error on the left.
\<close>

record Env =
  os_Open :: "string \<Rightarrow> string + string"
  io_ReadAll :: "string \<Rightarrow> string + string"
  xml_Unmarshal :: "string \<Rightarrow> string + TestSuites"
  os_Create :: "string \<Rightarrow> string option"

fun error_text :: "error \<Rightarrow> string" where
  "error_text (Panic msg) = ''panic: '' @ msg"
| "error_text (OpenError cause) = ''failed to open report file: '' @ cause"
| "error_text (ReadError cause) = ''failed to read report file: '' @ cause"
| "error_text (UnmarshalError cause) = ''failed to unmarshal XML: '' @ cause"

definition generateMarkdown :: "Env \<Rightarrow> string \<Rightarrow> string \<Rightarrow> (error + unit) \<times> string" where
  "generateMarkdown env reportPath writer =
     (case os_Open env reportPath of
        Inl err \<Rightarrow> (Inl (OpenError err), writer)
      | Inr xmlFile \<Rightarrow>
        (case io_ReadAll env xmlFile of
           Inl err \<Rightarrow> (Inl (ReadError err), writer)
         | Inr xmlData \<Rightarrow>
           (case xml_Unmarshal env xmlData of
              Inl err \<Rightarrow> (Inl (UnmarshalError err), writer)
            | Inr testSuites \<Rightarrow>
              (case build_report testSuites of
                 Inl e \<Rightarrow> (Inl e, writer)
               | Inr report \<Rightarrow>
                 (case Print report writer of
                    (Inl e, w) \<Rightarrow> (Inl e, w)
                  | (Inr r, w) \<Rightarrow> (Inr (), w))))))"

text \<open>
  A run of \<open>main\<close>: the exit code, the bytes written to the chosen output (standard output,
  or the file created at \<open>outputPath\<close>) and the bytes written to standard error. A panic ends
  the process with code 2; the goroutine trace that follows its message is not modelled.
\<close>

record Run =
  exit_code :: nat
  sink :: string
  stderr :: string

definition failure_block :: "error \<Rightarrow> string" where
  "failure_block err =
     ''## Report generation failed :skull:'' @ newline @ newline
     @ backtick @ backtick @ backtick @ ''log'' @ newline
     @ error_text err @ newline
     @ backtick @ backtick @ backtick @ newline"

definition main :: "Env \<Rightarrow> string \<Rightarrow> string \<Rightarrow> Run" where
  "main env reportPath outputPath =
     (case (if outputPath \<noteq> [] then os_Create env outputPath else None) of
        Some err \<Rightarrow>
          \<lparr>exit_code = 1, sink = [], stderr = ''failed to open output file: '' @ err @ newline\<rparr>
      | None \<Rightarrow>
        (case generateMarkdown env reportPath [] of
           (Inr u, w) \<Rightarrow> \<lparr>exit_code = 0, sink = w, stderr = []\<rparr>
         | (Inl (Panic msg), w) \<Rightarrow>
             \<lparr>exit_code = 2, sink = w, stderr = error_text (Panic msg) @ newline\<rparr>
         | (Inl err, w) \<Rightarrow> \<lparr>exit_code = 1, sink = w @ failure_block err, stderr = []\<rparr>))"

subsection \<open>The specification's view of the aggregation\<close>

text \<open>
  The specification counts a row by its last field alone. \<open>count_last_field label rows\<close>
  is that count; it is compared with the counters of \<open>NewReport\<close> below.
\<close>

definition count_last_field :: "string \<Rightarrow> string list list \<Rightarrow> nat" where
  "count_last_field label rows = length (filter (\<lambda>row. row \<noteq> [] \<and> last row = label) rows)"

text \<open>The test cases of a document in document order, one per emitted row.\<close>

definition document_cases :: "TestSuites \<Rightarrow> TestCase list" where
  "document_cases testSuites = concat (map suite_TestCase (doc_TestSuite testSuites))"

subsection \<open>Example documents\<close>

definition passing_case :: "string \<Rightarrow> TestCase" where
  "passing_case name = \<lparr>case_Name = name, case_Time = ''0.5'', case_Failure = None\<rparr>"

definition failing_case :: "string \<Rightarrow> TestCase" where
  "failing_case name = \<lparr>case_Name = name, case_Time = ''0.5'', case_Failure = Some ''boom''\<rparr>"

text \<open>A suite that is named like the fail-label, with one passing case.\<close>

definition misnamed_document :: TestSuites where
  "misnamed_document =
     \<lparr>doc_TestSuite = [\<lparr>suite_Name = Failed, suite_TestCase = [passing_case ''boot'']\<rparr>],
      doc_Time = ''1.0'', doc_Timestamp = ''2024-01-01''\<rparr>"

text \<open>Scenario C of the specification: two suites with a passing and a failing case each.\<close>

definition scenario_C :: TestSuites where
  "scenario_C =
     \<lparr>doc_TestSuite =
        [\<lparr>suite_Name = ''smoke'', suite_TestCase = [passing_case ''boot'', failing_case ''login'']\<rparr>,
         \<lparr>suite_Name = ''api'', suite_TestCase = [passing_case ''get'', failing_case ''put'']\<rparr>],
      doc_Time = ''1.0'', doc_Timestamp = ''2024-01-01''\<rparr>"

definition empty_document :: TestSuites where
  "empty_document = \<lparr>doc_TestSuite = [], doc_Time = ''0'', doc_Timestamp = ''2024-01-01''\<rparr>"

text \<open>One suite of thirteen cases: twelve that pass, then one that fails.\<close>

definition thirteen_cases :: TestSuites where
  "thirteen_cases =
     \<lparr>doc_TestSuite =
        [\<lparr>suite_Name = ''e2e'',
          suite_TestCase =
            [passing_case ''c00'', passing_case ''c01'', passing_case ''c02'', passing_case ''c03'',
             passing_case ''c04'', passing_case ''c05'', passing_case ''c06'', passing_case ''c07'',
             passing_case ''c08'', passing_case ''c09'', passing_case ''c10'', passing_case ''c11'',
             failing_case ''c12'']\<rparr>],
      doc_Time = ''1.0'', doc_Timestamp = ''2024-01-01''\<rparr>"

subsection \<open>Observing a report\<close>

text \<open>
  The report that \<open>generateMarkdown\<close> hands to \<open>Print\<close> (\<open>build_report_eq\<close> below), the
  rows that the report holds once \<open>Print\<close> has returned, the rows of one status and the
  second field of every row, which is the name of the test case.
\<close>

definition report_of :: "TestSuites \<Rightarrow> Report" where
  "report_of testSuites =
     NewReport (doc_Time testSuites) (doc_Timestamp testSuites)
       ((NewTable report_headers)\<lparr>Rows := document_rows testSuites\<rparr>)"

definition rows_after_Print :: "Report \<Rightarrow> string list list" where
  "rows_after_Print r = (case fst (Print r []) of Inl e \<Rightarrow> [] | Inr r' \<Rightarrow> Rows (Table r'))"

definition rows_with_status :: "string \<Rightarrow> string list list \<Rightarrow> string list list" where
  "rows_with_status label rows = filter (\<lambda>row. last row = label) rows"

definition case_names :: "string list list \<Rightarrow> string list" where
  "case_names rows = map (\<lambda>row. row ! 1) rows"








text \<open>An environment without the report file.\<close>

definition missing_env :: Env where
  "missing_env =
     \<lparr>os_Open = (\<lambda>path. Inl (''open '' @ path @ '': no such file or directory'')),
      io_ReadAll = (\<lambda>file. Inr []),
      xml_Unmarshal = (\<lambda>bytes. Inr empty_document),
      os_Create = (\<lambda>path. None)\<rparr>"

section \<open>Predicates of the verification\<close>

text \<open>
  \<open>permuted_on a b xs ys\<close>: \<open>ys\<close> is \<open>xs\<close> with the elements of the index range from \<open>a\<close>
  up to, not including, \<open>b\<close> rearranged. \<open>sorted_on key a b xs\<close>: the keys of that range
  ascend. \<open>keyed lessf key\<close>: the comparator is the strict order of a key.
  \<open>ins_inv\<close> is the invariant of one insertion and \<open>edge_ok\<close> the heap property of one
  node of the heap of \<open>heapSort_func\<close>.
\<close>

definition permuted_on :: "nat \<Rightarrow> nat \<Rightarrow> 'a list \<Rightarrow> 'a list \<Rightarrow> bool" where
  "permuted_on a b xs ys \<longleftrightarrow>
     length ys = length xs \<and> mset ys = mset xs \<and>
     (\<forall>k. k < a \<or> b \<le> k \<longrightarrow> ys ! k = xs ! k)"

definition sorted_on :: "('a \<Rightarrow> 'k::linorder) \<Rightarrow> nat \<Rightarrow> nat \<Rightarrow> 'a list \<Rightarrow> bool" where
  "sorted_on key a b xs \<longleftrightarrow> (\<forall>i j. a \<le> i \<and> i < j \<and> j < b \<longrightarrow> key (xs ! i) \<le> key (xs ! j))"

definition keyed :: "('a \<Rightarrow> 'a \<Rightarrow> bool) \<Rightarrow> ('a \<Rightarrow> 'k::linorder) \<Rightarrow> bool" where
  "keyed lessf key \<longleftrightarrow> (\<forall>x y. lessf x y = (key x < key y))"

definition ins_inv :: "('a \<Rightarrow> 'k::linorder) \<Rightarrow> nat \<Rightarrow> nat \<Rightarrow> nat \<Rightarrow> 'a list \<Rightarrow> bool" where
  "ins_inv key a j I data \<longleftrightarrow>
     a \<le> j \<and> j \<le> I \<and> I < length data \<and>
     (\<forall>p q. a \<le> p \<and> p < q \<and> q \<le> I \<and> p \<noteq> j \<and> q \<noteq> j \<longrightarrow> key (data ! p) \<le> key (data ! q)) \<and>
     (\<forall>q. j < q \<and> q \<le> I \<longrightarrow> key (data ! j) < key (data ! q))"

definition edge_ok :: "('a \<Rightarrow> 'k::linorder) \<Rightarrow> 'a list \<Rightarrow> nat \<Rightarrow> nat \<Rightarrow> nat \<Rightarrow> bool" where
  "edge_ok key data first hi p \<longleftrightarrow>
     (\<forall>c. (c = 2 * p + 1 \<or> c = 2 * p + 2) \<and> c < hi \<longrightarrow>
        key (data ! (first + c)) \<le> key (data ! (first + p)))"

text \<open>
  The comparator of \<open>Print\<close> is the strict order of the last field read in descending
  order: \<open>'a desc\<close> is \<open>'a\<close> with its order reversed.
\<close>

datatype 'a desc = Desc (un_Desc: 'a)

instantiation desc :: (linorder) linorder
begin

definition less_eq_desc :: "'a desc \<Rightarrow> 'a desc \<Rightarrow> bool" where
  "less_eq_desc x y \<longleftrightarrow> un_Desc y \<le> un_Desc x"

definition less_desc :: "'a desc \<Rightarrow> 'a desc \<Rightarrow> bool" where
  "less_desc x y \<longleftrightarrow> un_Desc y < un_Desc x"

instance
  by standard (auto simp: less_eq_desc_def less_desc_def desc.expand)

end

definition status_key :: "string list \<Rightarrow> string desc" where
  "status_key row = Desc (last row)"

definition descending :: "string list list \<Rightarrow> bool" where
  "descending rows \<longleftrightarrow> sorted_wrt (\<lambda>x y. last y \<le> last x) rows"

section \<open>Properties of the aggregation\<close>

lemma contains_iff: "contains elems val \<longleftrightarrow> val \<in> set elems"
  by (induction elems) auto

lemma count_rows_eq:
  "count_rows rows f p =
     (f + length (filter (\<lambda>row. Failed \<in> set row) rows),
      p + length (filter (\<lambda>row. Failed \<notin> set row \<and> Passed \<in> set row) rows))"
  by (induction rows arbitrary: f p) (auto simp: contains_iff)

lemma Failed_neq_Passed: "Failed \<noteq> Passed"
  by (simp add: Failed_def Passed_def)

lemma add_cases_eq:
  "length (Headers table) = 4 \<Longrightarrow>
   add_cases suiteName cases table =
     Inr (table\<lparr>Rows := Rows table @ map (case_row suiteName) cases\<rparr>)"
  by (induction cases arbitrary: table) (auto simp: Add_def case_row_def)

lemma add_suites_eq:
  "length (Headers table) = 4 \<Longrightarrow>
   add_suites suites table =
     Inr (table\<lparr>Rows := Rows table @ concat (map suite_rows suites)\<rparr>)"
  by (induction suites arbitrary: table) (auto simp: add_cases_eq suite_rows_def)

lemma build_table_eq:
  "build_table testSuites =
     Inr ((NewTable report_headers)\<lparr>Rows := document_rows testSuites\<rparr>)"
  by (simp add: build_table_def add_suites_eq NewTable_def report_headers_def document_rows_def)

lemma build_report_eq:
  "build_report testSuites =
     Inr (NewReport (doc_Time testSuites) (doc_Timestamp testSuites)
            ((NewTable report_headers)\<lparr>Rows := document_rows testSuites\<rparr>))"
  by (simp add: build_report_def build_table_eq)

lemma length_document_rows: "length (document_rows testSuites) = case_count testSuites"
  by (simp add: document_rows_def case_count_def suite_rows_def length_concat comp_def)

lemma document_rows_eq:
  "document_rows testSuites =
     concat (map (\<lambda>suite. map (case_row (suite_Name suite)) (suite_TestCase suite))
               (doc_TestSuite testSuites))"
  by (simp add: document_rows_def suite_rows_def cong: map_cong)

lemma length_case_row: "length (case_row suiteName testcase) = 4"
  by (simp add: case_row_def)

lemma last_case_row: "last (case_row suiteName testcase) = case_status testcase"
  by (simp add: case_row_def)

lemma document_rows_length4: "row \<in> set (document_rows testSuites) \<Longrightarrow> length row = 4"
  by (auto simp: document_rows_def suite_rows_def length_case_row)

lemma map_last_suite_rows: "map last (suite_rows suite) = map case_status (suite_TestCase suite)"
  by (simp add: suite_rows_def last_case_row)

lemma map_last_document_rows:
  "map last (document_rows testSuites) = map case_status (document_cases testSuites)"
  by (simp add: document_rows_def document_cases_def map_concat map_last_suite_rows comp_def)

lemma Rows_build_report:
  "build_report testSuites = Inr r \<Longrightarrow> Rows (Table r) = document_rows testSuites"
  by (auto simp: build_report_eq NewReport_def split: prod.splits)

section \<open>The claims on the aggregation\<close>

text \<open>
  What the loop of \<open>NewReport\<close> counts: \<open>contains\<close> compares whole strings, and it is
  asked about every field of the row.
\<close>

lemma NewReport_counts:
  "Failures (NewReport time timestamp table) =
     length (filter (\<lambda>row. Failed \<in> set row) (Rows table)) \<and>
   Passes (NewReport time timestamp table) =
     length (filter (\<lambda>row. Failed \<notin> set row \<and> Passed \<in> set row) (Rows table))"
  by (simp add: NewReport_def count_rows_eq)

lemma NewReport_counts_example:
  "Failures (NewReport [] [] \<lparr>Headers = [], Separator = [], Rows = [[Failed, Passed], [Passed]]\<rparr>) = 1 \<and>
   Passes (NewReport [] [] \<lparr>Headers = [], Separator = [], Rows = [[Failed, Passed], [Passed]]\<rparr>) = 1"
  using NewReport_counts [of "[]" "[]" "\<lparr>Headers = [], Separator = [], Rows = [[Failed, Passed], [Passed]]\<rparr>"]
  by (simp add: Failed_neq_Passed Failed_neq_Passed [symmetric])

text \<open>
  C1. The counters are meant to count the rows by their status, the last field, which is
  also the field that the comparator of \<open>Print\<close> reads. \<open>NewReport\<close> misses this on a suite
  that is named like a label: in the report of \<open>misnamed_document\<close> the only row has the
  pass-label as its last field, yet it is counted as failing and not as passing, because the
  suite name in its first field is the fail-label. The report then says that a test failed
  above a table in which every test passed.
\<close>

theorem last_field_count_counterexample:
  "build_report misnamed_document =
     Inr (NewReport ''1.0'' ''2024-01-01''
            ((NewTable report_headers)
               \<lparr>Rows := [[Failed, ''boot'', backtick @ ''0.5'' @ backtick, Passed]]\<rparr>)) \<and>
   Failures (NewReport ''1.0'' ''2024-01-01''
            ((NewTable report_headers)
               \<lparr>Rows := [[Failed, ''boot'', backtick @ ''0.5'' @ backtick, Passed]]\<rparr>)) = 1 \<and>
   count_last_field Failed [[Failed, ''boot'', backtick @ ''0.5'' @ backtick, Passed]] = 0 \<and>
   Passes (NewReport ''1.0'' ''2024-01-01''
            ((NewTable report_headers)
               \<lparr>Rows := [[Failed, ''boot'', backtick @ ''0.5'' @ backtick, Passed]]\<rparr>)) = 0 \<and>
   count_last_field Passed [[Failed, ''boot'', backtick @ ''0.5'' @ backtick, Passed]] = 1 \<and>
   \<not> OK (NewReport ''1.0'' ''2024-01-01''
            ((NewTable report_headers)
               \<lparr>Rows := [[Failed, ''boot'', backtick @ ''0.5'' @ backtick, Passed]]\<rparr>))"
  by (simp add: build_report_eq misnamed_document_def passing_case_def document_rows_def
      suite_rows_def case_row_def case_status_def NewReport_def backtick_def
      count_last_field_def Failed_neq_Passed Failed_neq_Passed [symmetric])

text \<open>
  C5. The report of a document holds exactly the rows \<open>document_rows\<close>, one per test case:
  their number is the number of test cases of all suites together, zero included.
\<close>

theorem row_count:
  "\<exists>r. build_report testSuites = Inr r \<and>
       Rows (Table r) = document_rows testSuites \<and>
       length (Rows (Table r)) = case_count testSuites \<and>
       case_count testSuites = length (document_cases testSuites)"
  by (simp add: build_report_eq NewReport_def length_document_rows case_count_def
      document_cases_def length_concat comp_def split: prod.splits)

theorem row_count_witness:
  "\<exists>r. build_report scenario_C = Inr r \<and> length (Rows (Table r)) = 4"
  using row_count [of scenario_C]
  by (auto simp: case_count_def scenario_C_def)

text \<open>
  C6. The \<open>i\<close>-th row of the report comes from the \<open>i\<close>-th test case of the document, and
  its last field is the fail-label exactly when that case has a \<open>Failure\<close>, the pass-label
  exactly when it has none. Name and time do not enter: \<open>case_status\<close> reads \<open>Failure\<close> only.
\<close>

theorem status_correct:
  assumes "build_report testSuites = Inr r" and "i < length (document_cases testSuites)"
  shows "i < length (Rows (Table r)) \<and>
         (last (Rows (Table r) ! i) = Failed \<longleftrightarrow> case_Failure (document_cases testSuites ! i) \<noteq> None) \<and>
         (last (Rows (Table r) ! i) = Passed \<longleftrightarrow> case_Failure (document_cases testSuites ! i) = None)"
proof -
  have rows: "Rows (Table r) = document_rows testSuites"
    using assms(1) by (rule Rows_build_report)
  have len: "length (document_rows testSuites) = length (document_cases testSuites)"
    using arg_cong [OF map_last_document_rows, of length] by simp
  have "map last (document_rows testSuites) ! i = map case_status (document_cases testSuites) ! i"
    by (simp add: map_last_document_rows)
  then have "last (document_rows testSuites ! i) = case_status (document_cases testSuites ! i)"
    using assms(2) len by simp
  then show ?thesis
    using assms(2) len rows Failed_neq_Passed by (auto simp: case_status_def)
qed

theorem status_correct_witness:
  "\<exists>r. build_report scenario_C = Inr r \<and> last (Rows (Table r) ! 1) = Failed \<and>
       last (Rows (Table r) ! 2) = Passed"
proof -
  obtain r where r: "build_report scenario_C = Inr r"
    by (simp add: build_report_eq)
  have cases: "document_cases scenario_C =
      [passing_case ''boot'', failing_case ''login'', passing_case ''get'', failing_case ''put'']"
    by (simp add: document_cases_def scenario_C_def)
  have "last (Rows (Table r) ! 1) = Failed"
    using status_correct [OF r, of 1] by (simp add: cases failing_case_def)
  moreover have "last (Rows (Table r) ! 2) = Passed"
    using status_correct [OF r, of 2] by (simp add: cases passing_case_def)
  ultimately show ?thesis using r by blast
qed

text \<open>
  C7. \<open>OK\<close> is set to \<open>failures == 0\<close>; a document without test cases has no rows, so its
  report has \<open>Failures = 0\<close> and \<open>OK = True\<close>.
\<close>

theorem success_flag:
  "OK (NewReport time timestamp table) = (Failures (NewReport time timestamp table) = 0) \<and>
   (case_count testSuites = 0 \<longrightarrow>
      (\<exists>r. build_report testSuites = Inr r \<and> Failures r = 0 \<and> Passes r = 0 \<and> OK r))"
proof -
  have "document_rows testSuites = []" if "case_count testSuites = 0"
    using that length_document_rows [of testSuites] by simp
  then show ?thesis
    by (auto simp: NewReport_def build_report_eq split: prod.splits)
qed

theorem success_flag_witness:
  "case_count empty_document = 0 \<and>
   (\<exists>r. build_report empty_document = Inr r \<and> Failures r = 0 \<and> Passes r = 0 \<and> OK r)"
  using success_flag [of "[]" "[]" "NewTable report_headers" empty_document]
  by (simp add: case_count_def empty_document_def)


section \<open>The claims on failures and panics\<close>

lemma document_rows_no_panic: "\<not> sort_panics (document_rows testSuites)"
  by (auto simp: sort_panics_def dest: document_rows_length4)

lemma Print_ok:
  "\<not> sort_panics (Rows (Table r)) \<Longrightarrow>
   Print r w =
     (Inr (r\<lparr>Table := (Table r)\<lparr>Rows := Slice status_less (Rows (Table r))\<rparr>\<rparr>),
      print_rows (Slice status_less (Rows (Table r))) (print_header r w))"
  by (simp add: Print_def Let_def)

lemma build_report_report_of: "build_report testSuites = Inr (report_of testSuites)"
  by (simp add: build_report_eq report_of_def)

lemma Rows_report_of: "Rows (Table (report_of testSuites)) = document_rows testSuites"
  by (simp add: report_of_def NewReport_def split: prod.splits)




text \<open>
  C9. When opening, reading or parsing fails, \<open>generateMarkdown\<close> returns an error and the
  writer is as it was: nothing has been written. The output of the run is then the
  failure notice alone.
\<close>

theorem no_partial_output:
  assumes "os_Open env reportPath = Inl cause \<or>
           (\<exists>xmlFile. os_Open env reportPath = Inr xmlFile \<and>
              (io_ReadAll env xmlFile = Inl cause \<or>
               (\<exists>xmlData. io_ReadAll env xmlFile = Inr xmlData \<and>
                  xml_Unmarshal env xmlData = Inl cause)))"
  shows "\<exists>e. generateMarkdown env reportPath w = (Inl e, w) \<and>
             (e = OpenError cause \<or> e = ReadError cause \<or> e = UnmarshalError cause) \<and>
             ((outputPath \<noteq> [] \<longrightarrow> os_Create env outputPath = None) \<longrightarrow>
                sink (main env reportPath outputPath) = failure_block e)"
proof -
  have gen: "\<exists>e. (\<forall>w. generateMarkdown env reportPath w = (Inl e, w)) \<and>
             (e = OpenError cause \<or> e = ReadError cause \<or> e = UnmarshalError cause)"
    using assms by (auto simp: generateMarkdown_def)
  then obtain e where e: "\<And>w. generateMarkdown env reportPath w = (Inl e, w)"
    and kind: "e = OpenError cause \<or> e = ReadError cause \<or> e = UnmarshalError cause"
    by blast
  have "sink (main env reportPath outputPath) = failure_block e"
    if "outputPath \<noteq> [] \<longrightarrow> os_Create env outputPath = None"
  proof -
    have "(if outputPath \<noteq> [] then os_Create env outputPath else None) = None"
      using that by simp
    then show ?thesis
      using kind by (auto simp: main_def e)
  qed
  then show ?thesis using e kind by blast
qed

theorem no_partial_output_witness:
  "generateMarkdown missing_env ''chainsaw-report.xml'' [] =
     (Inl (OpenError ''open chainsaw-report.xml: no such file or directory''), []) \<and>
   sink (main missing_env ''chainsaw-report.xml'' ''out.md'') =
     failure_block (OpenError ''open chainsaw-report.xml: no such file or directory'')"
proof -
  have gen: "generateMarkdown missing_env ''chainsaw-report.xml'' [] =
     (Inl (OpenError ''open chainsaw-report.xml: no such file or directory''), [])"
    by (simp add: generateMarkdown_def missing_env_def)
  have "os_Open missing_env ''chainsaw-report.xml'' =
      Inl ''open chainsaw-report.xml: no such file or directory''"
    by (simp add: missing_env_def)
  then obtain e where
    e: "generateMarkdown missing_env ''chainsaw-report.xml'' [] = (Inl e, [])"
    and out: "(''out.md'' \<noteq> [] \<longrightarrow> os_Create missing_env ''out.md'' = None) \<longrightarrow>
              sink (main missing_env ''chainsaw-report.xml'' ''out.md'') = failure_block e"
    using no_partial_output [of missing_env "''chainsaw-report.xml''"
      "''open chainsaw-report.xml: no such file or directory''" "[]" "''out.md''"]
    by blast
  have "e = OpenError ''open chainsaw-report.xml: no such file or directory''"
    using e gen by simp
  moreover have "os_Create missing_env ''out.md'' = None"
    by (simp add: missing_env_def)
  ultimately show ?thesis using gen out by simp
qed

text \<open>
  C10. \<open>Table.Add\<close> panics on a row whose length differs from the number of headers. The
  table of \<open>generateMarkdown\<close> is built without a panic: it has four headers and every row
  has four fields, so no row is empty, the index \<open>len(row)-1\<close> of the comparator is within
  the row, and \<open>Print\<close> returns without a panic.
\<close>

theorem rows_match_headers:
  "(length row \<noteq> length (Headers t) \<longrightarrow>
      Add t row = Inl (Panic ''row length does not match header length'')) \<and>
   (\<exists>table. build_table testSuites = Inr table \<and> length (Headers table) = 4 \<and>
      (\<forall>row \<in> set (Rows table).
         length row = length (Headers table) \<and> row \<noteq> [] \<and> length row - 1 < length row) \<and>
      \<not> sort_panics (Rows table)) \<and>
   (\<exists>r r' w'. build_report testSuites = Inr r \<and> Print r w = (Inr r', w'))"
proof -
  have "Add t row = Inl (Panic ''row length does not match header length'')"
    if "length row \<noteq> length (Headers t)"
    using that by (simp add: Add_def)
  moreover have "\<exists>table. build_table testSuites = Inr table \<and> length (Headers table) = 4 \<and>
      (\<forall>row \<in> set (Rows table).
         length row = length (Headers table) \<and> row \<noteq> [] \<and> length row - 1 < length row) \<and>
      \<not> sort_panics (Rows table)"
  proof -
    have "length row = 4" if "row \<in> set (document_rows testSuites)" for row
      using that by (rule document_rows_length4)
    then have "\<forall>row \<in> set (document_rows testSuites).
        length row = 4 \<and> row \<noteq> [] \<and> length row - 1 < length row"
      by fastforce
    then show ?thesis
      by (simp add: build_table_eq NewTable_def report_headers_def document_rows_no_panic)
  qed
  moreover have "\<exists>r r' w'. build_report testSuites = Inr r \<and> Print r w = (Inr r', w')"
    using Print_ok [of "report_of testSuites" w]
    by (simp add: build_report_report_of Rows_report_of document_rows_no_panic)
  ultimately show ?thesis by blast
qed

theorem rows_match_headers_witness:
  "Add (NewTable report_headers) [''smoke'', ''boot''] =
     Inl (Panic ''row length does not match header length'') \<and>
   (\<exists>table. build_table scenario_C = Inr table \<and> length (Rows table) = 4 \<and>
      (\<forall>row \<in> set (Rows table). length row = 4)) \<and>
   (\<exists>r r' w'. build_report scenario_C = Inr r \<and> Print r [] = (Inr r', w'))"
proof -
  have len: "length [''smoke'', ''boot''] \<noteq> length (Headers (NewTable report_headers))"
    by (simp add: NewTable_def report_headers_def)
  have "length (document_rows scenario_C) = 4"
    by (simp add: length_document_rows case_count_def scenario_C_def)
  then show ?thesis
    using rows_match_headers [of "[''smoke'', ''boot'']" "NewTable report_headers" scenario_C "[]"] len
    by (auto simp: build_table_eq)
qed

section \<open>Correctness of sort.Slice\<close>

text \<open>
  For a comparator that is the strict order of a key, \<open>Slice\<close> returns a permutation of
  its argument in which the keys ascend (\<open>Slice_spec\<close>), and it returns an argument that
  is sorted already as it is (\<open>Slice_sorted\<close>). Every function of \<open>pdqsort_func\<close> is
  specified on the index range it works on.
\<close>

lemma length_swap [simp]: "length (swap xs i j) = length xs"
  by (simp add: swap_def)

lemma swap_nth:
  "i < length xs \<Longrightarrow> j < length xs \<Longrightarrow>
   swap xs i j ! k = (if k = j then xs ! i else if k = i then xs ! j else xs ! k)"
  by (simp add: swap_def nth_list_update)

lemma mset_swap': "i < length xs \<Longrightarrow> j < length xs \<Longrightarrow> mset (swap xs i j) = mset xs"
  unfolding swap_def by (rule mset_swap)

lemma permuted_on_refl [simp]: "permuted_on a b xs xs"
  by (simp add: permuted_on_def)

lemma permuted_on_trans:
  "permuted_on a b xs ys \<Longrightarrow> permuted_on a b ys zs \<Longrightarrow> permuted_on a b xs zs"
  by (simp add: permuted_on_def)

lemma permuted_on_mono:
  "permuted_on a' b' xs ys \<Longrightarrow> a \<le> a' \<Longrightarrow> b' \<le> b \<Longrightarrow> permuted_on a b xs ys"
  by (auto simp: permuted_on_def)

lemma permuted_on_swap:
  "a \<le> i \<Longrightarrow> i < b \<Longrightarrow> a \<le> j \<Longrightarrow> j < b \<Longrightarrow> b \<le> length xs \<Longrightarrow>
   permuted_on a b xs (swap xs i j)"
  by (simp add: permuted_on_def mset_swap' swap_nth)

lemma permuted_on_length: "permuted_on a b xs ys \<Longrightarrow> length ys = length xs"
  by (simp add: permuted_on_def)

lemma permuted_on_outside:
  "permuted_on a b xs ys \<Longrightarrow> k < a \<or> b \<le> k \<Longrightarrow> ys ! k = xs ! k"
  by (auto simp: permuted_on_def)

lemma permuted_on_segment:
  assumes "permuted_on a b xs ys" and "a \<le> b" and "b \<le> length xs"
  shows "mset (take (b - a) (drop a ys)) = mset (take (b - a) (drop a xs))"
proof -
  have len: "length ys = length xs" using assms(1) by (rule permuted_on_length)
  have t: "take a ys = take a xs"
    using assms len by (intro nth_equalityI) (auto simp: permuted_on_def)
  have d: "drop b ys = drop b xs"
    using assms len by (intro nth_equalityI) (auto simp: permuted_on_def)
  have split: "zs = take a zs @ take (b - a) (drop a zs) @ drop b zs" if "b \<le> length zs" for zs :: "'a list"
    using assms(2) that
    by (metis append_take_drop_id drop_drop le_add_diff_inverse2)
  have "mset ys = mset (take a ys) + mset (take (b - a) (drop a ys)) + mset (drop b ys)"
    using split [of ys] assms(3) len by (metis mset_append add.assoc)
  moreover have "mset xs = mset (take a xs) + mset (take (b - a) (drop a xs)) + mset (drop b xs)"
    using split [of xs] assms(3) by (metis mset_append add.assoc)
  moreover have "mset ys = mset xs" using assms(1) by (simp add: permuted_on_def)
  ultimately show ?thesis using t d by simp
qed

lemma segment_eq_map:
  "a \<le> b \<Longrightarrow> b \<le> length xs \<Longrightarrow> take (b - a) (drop a xs) = map ((!) xs) [a..<b]"
  by (intro nth_equalityI) simp_all

lemma segment_set:
  "a \<le> b \<Longrightarrow> b \<le> length xs \<Longrightarrow> set (take (b - a) (drop a xs)) = (!) xs ` {a..<b}"
  by (simp add: segment_eq_map)

lemma permuted_on_all:
  assumes "permuted_on a b xs ys" and "a \<le> b" and "b \<le> length xs"
    and "\<And>k. a \<le> k \<Longrightarrow> k < b \<Longrightarrow> P (xs ! k)"
    and "a \<le> k" and "k < b"
  shows "P (ys ! k)"
proof -
  have len: "length ys = length xs" using assms(1) by (rule permuted_on_length)
  have "set (take (b - a) (drop a ys)) = set (take (b - a) (drop a xs))"
    using permuted_on_segment [OF assms(1-3)] by (rule mset_eq_setD)
  then have "(!) ys ` {a..<b} = (!) xs ` {a..<b}"
    using assms(2,3) len by (simp add: segment_set)
  moreover have "ys ! k \<in> (!) ys ` {a..<b}" using assms(5,6) by simp
  ultimately obtain k' where "ys ! k = xs ! k'" "a \<le> k'" "k' < b" by auto
  then show ?thesis using assms(4) by simp
qed

lemma sorted_on_adjacent:
  assumes "\<And>k. a < k \<Longrightarrow> k < b \<Longrightarrow> key (xs ! (k - 1)) \<le> key (xs ! k)"
  shows "sorted_on key a b xs"
proof -
  have "key (xs ! i) \<le> key (xs ! (i + d))" if "a \<le> i" "i + d < b" for i d
    using that
  proof (induction d)
    case 0
    then show ?case by simp
  next
    case (Suc d)
    then have "key (xs ! i) \<le> key (xs ! (i + d))" by simp
    also have "\<dots> \<le> key (xs ! (i + Suc d))"
      using assms [of "i + Suc d"] Suc.prems by simp
    finally show ?case .
  qed
  then show ?thesis
    unfolding sorted_on_def by (metis le_add_diff_inverse less_imp_le_nat)
qed

lemma sorted_on_whole: "sorted_on key 0 (length xs) xs \<longleftrightarrow> sorted (map key xs)"
  by (auto simp: sorted_on_def sorted_iff_nth_mono_less)

lemma keyedD: "keyed lessf key \<Longrightarrow> lessf x y = (key x < key y)"
  by (simp add: keyed_def)

lemma sorted_on_mono: "sorted_on key a b xs \<Longrightarrow> a \<le> a' \<Longrightarrow> b' \<le> b \<Longrightarrow> sorted_on key a' b' xs"
  by (simp add: sorted_on_def)

lemma ins_inv_step:
  assumes "ins_inv key a j I data" and "a < j" and "key (data ! j) < key (data ! (j - 1))"
  shows "ins_inv key a (j - 1) I (swap data j (j - 1))"
proof -
  have bounds: "a \<le> j" "j \<le> I" "I < length data"
    and srt: "\<And>p q. a \<le> p \<Longrightarrow> p < q \<Longrightarrow> q \<le> I \<Longrightarrow> p \<noteq> j \<Longrightarrow> q \<noteq> j \<Longrightarrow> key (data ! p) \<le> key (data ! q)"
    and low: "\<And>q. j < q \<Longrightarrow> q \<le> I \<Longrightarrow> key (data ! j) < key (data ! q)"
    using assms(1) by (auto simp: ins_inv_def)
  let ?d = "swap data j (j - 1)"
  have nth: "swap data j (j - Suc 0) ! k =
      (if k = j - Suc 0 then data ! j else if k = j then data ! (j - Suc 0) else data ! k)" for k
    using bounds assms(2) by (simp add: swap_nth)
  have "key (?d ! p) \<le> key (?d ! q)"
    if "a \<le> p" "p < q" "q \<le> I" "p \<noteq> j - 1" "q \<noteq> j - 1" for p q
  proof -
    consider "p = j" | "q = j" "p \<noteq> j" | "p \<noteq> j" "q \<noteq> j" by blast
    then show ?thesis
    proof cases
      case 1
      then have "key (data ! (j - 1)) \<le> key (data ! q)"
        using that assms(2) by (intro srt) auto
      then show ?thesis using 1 that by (simp add: nth)
    next
      case 2
      then have "key (data ! p) \<le> key (data ! (j - 1))"
        using that assms(2) by (intro srt) auto
      then show ?thesis using 2 that by (simp add: nth)
    next
      case 3
      then have "key (data ! p) \<le> key (data ! q)"
        using that by (intro srt) auto
      then show ?thesis using 3 that by (simp add: nth)
    qed
  qed
  moreover have "key (?d ! (j - 1)) < key (?d ! q)" if "j - 1 < q" "q \<le> I" for q
  proof (cases "q = j")
    case True
    then show ?thesis using assms(2,3) by (simp add: nth)
  next
    case False
    then have "key (data ! j) < key (data ! q)" using that by (intro low) auto
    then show ?thesis using False that by (simp add: nth)
  qed
  moreover have "a \<le> j - 1" "j - 1 \<le> I"
    using bounds assms(2) by auto
  ultimately show ?thesis
    using bounds unfolding ins_inv_def by simp
qed

lemma ins_inv_done:
  assumes "ins_inv key a j I data" and "j = a \<or> key (data ! (j - 1)) \<le> key (data ! j)"
  shows "sorted_on key a (I + 1) data"
proof (rule sorted_on_adjacent)
  fix k assume k: "a < k" "k < I + 1"
  have bounds: "a \<le> j" "j \<le> I" "I < length data"
    and srt: "\<And>p q. a \<le> p \<Longrightarrow> p < q \<Longrightarrow> q \<le> I \<Longrightarrow> p \<noteq> j \<Longrightarrow> q \<noteq> j \<Longrightarrow> key (data ! p) \<le> key (data ! q)"
    and low: "\<And>q. j < q \<Longrightarrow> q \<le> I \<Longrightarrow> key (data ! j) < key (data ! q)"
    using assms(1) by (auto simp: ins_inv_def)
  consider "k = j" | "k - 1 = j" | "k \<noteq> j" "k - 1 \<noteq> j" by blast
  then show "key (data ! (k - 1)) \<le> key (data ! k)"
  proof cases
    case 1
    then show ?thesis using assms(2) k by auto
  next
    case 2
    then have "key (data ! j) < key (data ! k)" using k by (intro low) auto
    then show ?thesis using 2 by simp
  next
    case 3
    then show ?thesis using k by (intro srt) auto
  qed
qed

lemma insertion_shift_spec:
  "keyed lessf key \<Longrightarrow> ins_inv key a j I data \<Longrightarrow>
   sorted_on key a (I + 1) (insertion_shift lessf data a j) \<and>
   permuted_on a (I + 1) data (insertion_shift lessf data a j)"
proof (induction lessf data a j rule: insertion_shift.induct)
  case (1 lessf data a j)
  note inv = "1.prems"(2)
  have lt: "lessf x y = (key x < key y)" for x y
    using "1.prems"(1) by (rule keyedD)
  show ?case
  proof (cases "j > a \<and> lessf (data ! j) (data ! (j - 1))")
    case True
    let ?d = "swap data j (j - 1)"
    have step: "ins_inv key a (j - 1) I ?d"
      using inv True by (intro ins_inv_step) (simp_all add: lt)
    have bounds: "a \<le> j" "j \<le> I" "I < length data"
      using inv by (auto simp: ins_inv_def)
    have "permuted_on a (I + 1) data ?d"
      using bounds True by (intro permuted_on_swap) auto
    moreover have "insertion_shift lessf data a j = insertion_shift lessf ?d a (j - 1)"
      using True by (subst insertion_shift.simps) simp
    ultimately show ?thesis
      using "1.IH" [OF True "1.prems"(1) step] by (auto intro: permuted_on_trans)
  next
    case False
    then have "insertion_shift lessf data a j = data"
      by (subst insertion_shift.simps) auto
    moreover have "a \<le> j"
      using inv by (simp add: ins_inv_def)
    moreover have "sorted_on key a (I + 1) data"
      using inv False \<open>a \<le> j\<close> by (intro ins_inv_done [where j = j]) (auto simp: lt)
    ultimately show ?thesis by simp
  qed
qed

lemma insertion_loop_spec:
  "keyed lessf key \<Longrightarrow> a < i \<Longrightarrow> b \<le> length data \<Longrightarrow> sorted_on key a i data \<Longrightarrow>
   sorted_on key a b (insertion_loop lessf data a b i) \<and>
   permuted_on a b data (insertion_loop lessf data a b i)"
proof (induction lessf data a b i rule: insertion_loop.induct)
  case (1 lessf data a b i)
  show ?case
  proof (cases "i < b")
    case True
    let ?d = "insertion_shift lessf data a i"
    have "ins_inv key a i i data"
      using "1.prems" True by (auto simp: ins_inv_def sorted_on_def)
    then have d: "sorted_on key a (i + 1) ?d" "permuted_on a (i + 1) data ?d"
      using insertion_shift_spec [OF "1.prems"(1)] by blast+
    have len: "length ?d = length data"
      using d(2) by (rule permuted_on_length)
    have "sorted_on key a b (insertion_loop lessf ?d a b (i + 1)) \<and>
          permuted_on a b ?d (insertion_loop lessf ?d a b (i + 1))"
      using "1.prems" d(1) len by (intro "1.IH" [OF True]) auto
    moreover have "permuted_on a b data ?d"
      using d(2) True by (intro permuted_on_mono [OF d(2)]) auto
    moreover have "insertion_loop lessf data a b i = insertion_loop lessf ?d a b (i + 1)"
      using True by (subst insertion_loop.simps) simp
    ultimately show ?thesis
      by (auto intro: permuted_on_trans)
  next
    case False
    then have "insertion_loop lessf data a b i = data"
      by (subst insertion_loop.simps) simp
    then show ?thesis
      using "1.prems" False by (auto intro: sorted_on_mono)
  qed
qed

lemma insertionSort_func_spec:
  assumes "keyed lessf key" and "b \<le> length data"
  shows "sorted_on key a b (insertionSort_func lessf data a b) \<and>
         permuted_on a b data (insertionSort_func lessf data a b)"
  unfolding insertionSort_func_def
  using assms by (intro insertion_loop_spec) (auto simp: sorted_on_def)

lemma partition_up_spec:
  "keyed lessf key \<Longrightarrow>
   i \<le> partition_up lessf data a i j \<and>
   (i \<le> Suc j \<longrightarrow> partition_up lessf data a i j \<le> Suc j) \<and>
   (\<forall>k. i \<le> k \<and> k < partition_up lessf data a i j \<longrightarrow> key (data ! k) < key (data ! a)) \<and>
   (partition_up lessf data a i j \<le> j \<longrightarrow>
      \<not> key (data ! partition_up lessf data a i j) < key (data ! a))"
proof (induction lessf data a i j rule: partition_up.induct)
  case (1 lessf data a i j)
  have lt: "lessf (data ! i) (data ! a) = (key (data ! i) < key (data ! a))"
    using "1.prems"(1) by (rule keyedD)
  show ?case
  proof (cases "i \<le> j \<and> lessf (data ! i) (data ! a)")
    case True
    then have eq: "partition_up lessf data a i j = partition_up lessf data a (i + 1) j"
      by (subst partition_up.simps) simp
    show ?thesis
      unfolding eq using "1.IH" [OF True "1.prems"] True
      by (auto simp: lt elim: le_SucE dest: le_neq_implies_less)
  next
    case False
    then have "partition_up lessf data a i j = i"
      by (subst partition_up.simps) auto
    then show ?thesis using False by (auto simp: lt)
  qed
qed

lemma partition_down_right:
  "keyed lessf key \<Longrightarrow> partition_down lessf data a i j < k \<Longrightarrow> k \<le> j \<Longrightarrow>
   key (data ! a) \<le> key (data ! k)"
proof (induction lessf data a i j rule: partition_down.induct)
  case (1 lessf data a i j)
  have lt: "lessf (data ! j) (data ! a) = (key (data ! j) < key (data ! a))"
    using "1.prems"(1) by (rule keyedD)
  show ?case
  proof (cases "0 < j \<and> i \<le> j \<and> \<not> lessf (data ! j) (data ! a)")
    case True
    then have eq: "partition_down lessf data a i j = partition_down lessf data a i (j - 1)"
      by (subst partition_down.simps) simp
    show ?thesis
    proof (cases "k = j")
      case True
      then show ?thesis using \<open>0 < j \<and> i \<le> j \<and> \<not> lessf (data ! j) (data ! a)\<close> by (auto simp: lt)
    next
      case False
      then have "k \<le> j - 1" using "1.prems"(3) by simp
      then show ?thesis
        using "1.IH" [OF True "1.prems"(1)] "1.prems"(2) by (simp add: eq)
    qed
  next
    case False
    then have "partition_down lessf data a i j = j"
      by (subst partition_down.simps) auto
    then show ?thesis using "1.prems" by simp
  qed
qed

lemma partition_down_stop:
  "keyed lessf key \<Longrightarrow> 0 < i \<Longrightarrow> i \<le> partition_down lessf data a i j \<Longrightarrow>
   key (data ! partition_down lessf data a i j) < key (data ! a)"
proof (induction lessf data a i j rule: partition_down.induct)
  case (1 lessf data a i j)
  have lt: "lessf (data ! j) (data ! a) = (key (data ! j) < key (data ! a))"
    using "1.prems"(1) by (rule keyedD)
  show ?case
  proof (cases "0 < j \<and> i \<le> j \<and> \<not> lessf (data ! j) (data ! a)")
    case True
    then have eq: "partition_down lessf data a i j = partition_down lessf data a i (j - 1)"
      by (subst partition_down.simps) simp
    show ?thesis
      using "1.IH" [OF True "1.prems"(1,2)] "1.prems"(3) by (simp add: eq)
  next
    case False
    then have eq: "partition_down lessf data a i j = j"
      by (subst partition_down.simps) auto
    then have "i \<le> j" "0 < j" using "1.prems" by auto
    then show ?thesis using False by (simp add: eq lt)
  qed
qed

lemma partition_loop_spec:
  "keyed lessf key \<Longrightarrow> a < i \<Longrightarrow> i \<le> j + 1 \<Longrightarrow> j < b \<Longrightarrow> b \<le> length data \<Longrightarrow>
   (\<forall>k. a < k \<and> k < i \<longrightarrow> key (data ! k) < key (data ! a)) \<Longrightarrow>
   (\<forall>k. j < k \<and> k < b \<longrightarrow> key (data ! a) \<le> key (data ! k)) \<Longrightarrow>
   partition_loop lessf data a i j = (data', m) \<Longrightarrow>
   permuted_on (a + 1) b data data' \<and> a \<le> m \<and> m < b \<and>
   (\<forall>k. a < k \<and> k \<le> m \<longrightarrow> key (data' ! k) < key (data ! a)) \<and>
   (\<forall>k. m < k \<and> k < b \<longrightarrow> key (data ! a) \<le> key (data' ! k))"
proof (induction lessf data a i j arbitrary: data' m rule: partition_loop.induct)
  case (1 lessf data a i j)
  note keyed = "1.prems"(1)
  define i' where "i' = partition_up lessf data a i j"
  define j' where "j' = partition_down lessf data a i' j"
  have up: "i \<le> i'" "i' \<le> Suc j"
    "\<And>k. i \<le> k \<Longrightarrow> k < i' \<Longrightarrow> key (data ! k) < key (data ! a)"
    "i' \<le> j \<Longrightarrow> \<not> key (data ! i') < key (data ! a)"
    using partition_up_spec [OF keyed, of i data a j] "1.prems"(3) by (auto simp: i'_def)
  have down: "j' \<le> j" "i' \<le> Suc j'"
    using partition_down_le [of lessf data a i' j] partition_down_ge [OF up(2), of lessf data a]
    by (auto simp: j'_def)
  have right: "key (data ! a) \<le> key (data ! k)" if "j' < k" "k \<le> j" for k
    using partition_down_right [OF keyed, of data a i' j k] that by (simp add: j'_def)
  have stop: "key (data ! j') < key (data ! a)" if "i' \<le> j'"
    using partition_down_stop [OF keyed, of i' data a j] that up(1) "1.prems"(2) by (simp add: j'_def)
  have L: "key (data ! k) < key (data ! a)" if "a < k" "k < i'" for k
    using that "1.prems"(6) up(3) [of k] by (cases "k < i") auto
  have R: "key (data ! a) \<le> key (data ! k)" if "j' < k" "k < b" for k
    using that "1.prems"(7) right [of k] by (cases "k \<le> j") auto
  show ?case
  proof (cases "i' > j'")
    case True
    then have res: "data' = data" "m = j'"
      using "1.prems"(8) by (subst (asm) partition_loop.simps, simp add: Let_def i'_def j'_def)+
    have "a \<le> j'" "j' < b"
      using True down up "1.prems"(2,4) by auto
    moreover have "key (data ! k) < key (data ! a)" if "a < k" "k \<le> j'" for k
      using that True by (intro L) auto
    ultimately show ?thesis
      using R by (simp add: res)
  next
    case False
    then have ij: "i' \<le> j'" by simp
    then have "i' \<noteq> j'"
      using stop up(4) down(1) by force
    then have lt: "i' < j'" using ij by simp
    let ?d = "swap data i' j'"
    have bounds: "a < i'" "j' < b" "j' < length data" "i' < length data"
      using up(1) down(1) lt "1.prems"(2,4,5) by auto
    have nth: "?d ! k = (if k = j' then data ! i' else if k = i' then data ! j' else data ! k)" for k
      using bounds by (simp add: swap_nth)
    have eq: "partition_loop lessf ?d a (i' + 1) (j' - 1) = (data', m)"
      using "1.prems"(8) False
      by (subst (asm) partition_loop.simps) (simp add: Let_def i'_def j'_def)
    have da: "?d ! a = data ! a"
      using bounds lt by (simp add: nth)
    have L': "\<forall>k. a < k \<and> k < i' + 1 \<longrightarrow> key (?d ! k) < key (?d ! a)"
    proof (intro allI impI)
      fix k assume k: "a < k \<and> k < i' + 1"
      show "key (?d ! k) < key (?d ! a)"
      proof (cases "k = i'")
        case True
        then show ?thesis using stop [OF ij] lt bounds by (simp add: nth)
      next
        case False
        then have "k < i'" using k by simp
        then show ?thesis using L [of k] k lt bounds by (simp add: nth)
      qed
    qed
    have R': "\<forall>k. j' - 1 < k \<and> k < b \<longrightarrow> key (?d ! a) \<le> key (?d ! k)"
    proof (intro allI impI)
      fix k assume k: "j' - 1 < k \<and> k < b"
      show "key (?d ! a) \<le> key (?d ! k)"
      proof (cases "k = j'")
        case True
        then show ?thesis using up(4) ij down(1) lt bounds by (simp add: nth)
      next
        case False
        then have "j' < k" using k by auto
        then show ?thesis using R [of k] k lt bounds by (simp add: nth)
      qed
    qed
    have IH: "permuted_on (a + 1) b ?d data' \<and> a \<le> m \<and> m < b \<and>
       (\<forall>k. a < k \<and> k \<le> m \<longrightarrow> key (data' ! k) < key (?d ! a)) \<and>
       (\<forall>k. m < k \<and> k < b \<longrightarrow> key (?d ! a) \<le> key (data' ! k))"
      using bounds lt "1.prems"(5) L' R' eq
      by (intro "1.IH" [OF i'_def j'_def _ keyed]) (auto simp: False)
    have "permuted_on (a + 1) b data ?d"
      using bounds lt "1.prems"(5) by (intro permuted_on_swap) auto
    then show ?thesis
      using IH by (auto simp: da intro: permuted_on_trans)
  qed
qed

lemma partition_func_loop:
  assumes "partition_func lessf data a b pivot = (d', mid, ap)"
  shows "\<exists>d. partition_loop lessf (swap data a pivot) a (a + 1) (b - 1) = (d, mid) \<and>
             d' = swap d mid a"
  using assms unfolding partition_func_def Let_def
  by (subst partition_loop.simps) (auto simp: Let_def split: if_splits prod.splits)

lemma partition_func_spec:
  assumes keyed: "keyed lessf key" and piv: "a \<le> pivot" "pivot < b" and len: "b \<le> length data"
    and res: "partition_func lessf data a b pivot = (d', mid, ap)"
  shows "permuted_on a b data d' \<and> a \<le> mid \<and> mid < b \<and>
         (\<forall>k. a \<le> k \<and> k < mid \<longrightarrow> key (d' ! k) < key (d' ! mid)) \<and>
         (\<forall>k. mid < k \<and> k < b \<longrightarrow> key (d' ! mid) \<le> key (d' ! k))"
proof -
  let ?d0 = "swap data a pivot"
  obtain d where loop: "partition_loop lessf ?d0 a (a + 1) (b - 1) = (d, mid)"
    and d': "d' = swap d mid a"
    using partition_func_loop [OF res] by blast
  have spec: "permuted_on (a + 1) b ?d0 d \<and> a \<le> mid \<and> mid < b \<and>
     (\<forall>k. a < k \<and> k \<le> mid \<longrightarrow> key (d ! k) < key (?d0 ! a)) \<and>
     (\<forall>k. mid < k \<and> k < b \<longrightarrow> key (?d0 ! a) \<le> key (d ! k))"
    using piv len by (intro partition_loop_spec [OF keyed _ _ _ _ _ _ loop]) auto
  then have perm: "permuted_on (a + 1) b ?d0 d" and mid: "a \<le> mid" "mid < b"
    and L: "\<And>k. a < k \<Longrightarrow> k \<le> mid \<Longrightarrow> key (d ! k) < key (?d0 ! a)"
    and R: "\<And>k. mid < k \<Longrightarrow> k < b \<Longrightarrow> key (?d0 ! a) \<le> key (d ! k)"
    by auto
  have lend: "length d = length data"
    using permuted_on_length [OF perm] by simp
  have da: "d ! a = ?d0 ! a"
    using permuted_on_outside [OF perm, of a] by simp
  have nth: "d' ! k = (if k = a then d ! mid else if k = mid then d ! a else d ! k)" for k
    unfolding d' using mid len lend by (simp add: swap_nth)
  have "permuted_on a b data ?d0"
    using piv len by (intro permuted_on_swap) auto
  moreover have "permuted_on a b ?d0 d"
    using perm by (rule permuted_on_mono) auto
  moreover have "permuted_on a b d d'"
    unfolding d' using mid len lend by (intro permuted_on_swap) auto
  ultimately have "permuted_on a b data d'"
    by (blast intro: permuted_on_trans)
  moreover have "key (d' ! k) < key (d' ! mid)" if "a \<le> k" "k < mid" for k
  proof (cases "k = a")
    case True
    then show ?thesis using that L [of mid] by (simp add: nth da)
  next
    case False
    then show ?thesis using that L [of k] by (simp add: nth da)
  qed
  moreover have "key (d' ! mid) \<le> key (d' ! k)" if "mid < k" "k < b" for k
    using that R [of k] mid by (auto simp: nth da)
  ultimately show ?thesis using mid by blast
qed

lemma partitionEqual_up_spec:
  "keyed lessf key \<Longrightarrow>
   i \<le> partitionEqual_up lessf data a i j \<and>
   (i \<le> Suc j \<longrightarrow> partitionEqual_up lessf data a i j \<le> Suc j) \<and>
   (\<forall>k. i \<le> k \<and> k < partitionEqual_up lessf data a i j \<longrightarrow> key (data ! k) \<le> key (data ! a)) \<and>
   (partitionEqual_up lessf data a i j \<le> j \<longrightarrow>
      key (data ! a) < key (data ! partitionEqual_up lessf data a i j))"
proof (induction lessf data a i j rule: partitionEqual_up.induct)
  case (1 lessf data a i j)
  have lt: "lessf (data ! a) (data ! i) = (key (data ! a) < key (data ! i))"
    using "1.prems"(1) by (rule keyedD)
  show ?case
  proof (cases "i \<le> j \<and> \<not> lessf (data ! a) (data ! i)")
    case True
    then have eq: "partitionEqual_up lessf data a i j = partitionEqual_up lessf data a (i + 1) j"
      by (subst partitionEqual_up.simps) simp
    show ?thesis
      unfolding eq using "1.IH" [OF True "1.prems"] True
      by (auto simp: lt elim: le_SucE dest: le_neq_implies_less)
  next
    case False
    then have "partitionEqual_up lessf data a i j = i"
      by (subst partitionEqual_up.simps) auto
    then show ?thesis using False by (auto simp: lt)
  qed
qed

lemma partitionEqual_down_ge:
  "i \<le> Suc j \<Longrightarrow> i \<le> Suc (partitionEqual_down lessf data a i j)"
proof (induction lessf data a i j rule: partitionEqual_down.induct)
  case (1 lessf data a i j)
  show ?case
    using 1 by (subst partitionEqual_down.simps) auto
qed

lemma partitionEqual_down_right:
  "keyed lessf key \<Longrightarrow> partitionEqual_down lessf data a i j < k \<Longrightarrow> k \<le> j \<Longrightarrow>
   key (data ! a) < key (data ! k)"
proof (induction lessf data a i j rule: partitionEqual_down.induct)
  case (1 lessf data a i j)
  have lt: "lessf (data ! a) (data ! j) = (key (data ! a) < key (data ! j))"
    using "1.prems"(1) by (rule keyedD)
  show ?case
  proof (cases "0 < j \<and> i \<le> j \<and> lessf (data ! a) (data ! j)")
    case True
    then have eq: "partitionEqual_down lessf data a i j = partitionEqual_down lessf data a i (j - 1)"
      by (subst partitionEqual_down.simps) simp
    show ?thesis
    proof (cases "k = j")
      case True
      then show ?thesis using \<open>0 < j \<and> i \<le> j \<and> lessf (data ! a) (data ! j)\<close> by (auto simp: lt)
    next
      case False
      then have "k \<le> j - 1" using "1.prems"(3) by simp
      then show ?thesis
        using "1.IH" [OF True "1.prems"(1)] "1.prems"(2) by (simp add: eq)
    qed
  next
    case False
    then have "partitionEqual_down lessf data a i j = j"
      by (subst partitionEqual_down.simps) auto
    then show ?thesis using "1.prems" by simp
  qed
qed

lemma partitionEqual_down_stop:
  "keyed lessf key \<Longrightarrow> 0 < i \<Longrightarrow> i \<le> partitionEqual_down lessf data a i j \<Longrightarrow>
   key (data ! partitionEqual_down lessf data a i j) \<le> key (data ! a)"
proof (induction lessf data a i j rule: partitionEqual_down.induct)
  case (1 lessf data a i j)
  have lt: "lessf (data ! a) (data ! j) = (key (data ! a) < key (data ! j))"
    using "1.prems"(1) by (rule keyedD)
  show ?case
  proof (cases "0 < j \<and> i \<le> j \<and> lessf (data ! a) (data ! j)")
    case True
    then have eq: "partitionEqual_down lessf data a i j = partitionEqual_down lessf data a i (j - 1)"
      by (subst partitionEqual_down.simps) simp
    show ?thesis
      using "1.IH" [OF True "1.prems"(1,2)] "1.prems"(3) by (simp add: eq)
  next
    case False
    then have eq: "partitionEqual_down lessf data a i j = j"
      by (subst partitionEqual_down.simps) auto
    then have "i \<le> j" "0 < j" using "1.prems" by auto
    then show ?thesis using False by (auto simp: eq lt)
  qed
qed

lemma partitionEqual_loop_spec:
  "keyed lessf key \<Longrightarrow> a < i \<Longrightarrow> i \<le> j + 1 \<Longrightarrow> j < b \<Longrightarrow> b \<le> length data \<Longrightarrow>
   (\<forall>k. a < k \<and> k < i \<longrightarrow> key (data ! k) \<le> key (data ! a)) \<Longrightarrow>
   (\<forall>k. j < k \<and> k < b \<longrightarrow> key (data ! a) < key (data ! k)) \<Longrightarrow>
   partitionEqual_loop lessf data a i j = (data', m) \<Longrightarrow>
   permuted_on (a + 1) b data data' \<and> a < m \<and> m \<le> b \<and>
   (\<forall>k. a < k \<and> k < m \<longrightarrow> key (data' ! k) \<le> key (data ! a)) \<and>
   (\<forall>k. m \<le> k \<and> k < b \<longrightarrow> key (data ! a) < key (data' ! k))"
proof (induction lessf data a i j arbitrary: data' m rule: partitionEqual_loop.induct)
  case (1 lessf data a i j)
  note keyed = "1.prems"(1)
  define i' where "i' = partitionEqual_up lessf data a i j"
  define j' where "j' = partitionEqual_down lessf data a i' j"
  have up: "i \<le> i'" "i' \<le> Suc j"
    "\<And>k. i \<le> k \<Longrightarrow> k < i' \<Longrightarrow> key (data ! k) \<le> key (data ! a)"
    "i' \<le> j \<Longrightarrow> key (data ! a) < key (data ! i')"
    using partitionEqual_up_spec [OF keyed, of i data a j] "1.prems"(3) by (auto simp: i'_def)
  have down: "j' \<le> j" "i' \<le> Suc j'"
    using partitionEqual_down_le [of lessf data a i' j]
      partitionEqual_down_ge [OF up(2), of lessf data a]
    by (auto simp: j'_def)
  have right: "key (data ! a) < key (data ! k)" if "j' < k" "k \<le> j" for k
    using partitionEqual_down_right [OF keyed, of data a i' j k] that by (simp add: j'_def)
  have stop: "key (data ! j') \<le> key (data ! a)" if "i' \<le> j'"
    using partitionEqual_down_stop [OF keyed, of i' data a j] that up(1) "1.prems"(2)
    by (simp add: j'_def)
  have L: "key (data ! k) \<le> key (data ! a)" if "a < k" "k < i'" for k
    using that "1.prems"(6) up(3) [of k] by (cases "k < i") auto
  have R: "key (data ! a) < key (data ! k)" if "j' < k" "k < b" for k
    using that "1.prems"(7) right [of k] by (cases "k \<le> j") auto
  show ?case
  proof (cases "i' > j'")
    case True
    then have res: "data' = data" "m = i'"
      using "1.prems"(8) by (subst (asm) partitionEqual_loop.simps, simp add: Let_def i'_def j'_def)+
    have "a < i'" "i' \<le> b"
      using True down up "1.prems"(2,4) by auto
    moreover have "key (data ! a) < key (data ! k)" if "i' \<le> k" "k < b" for k
      using that True by (intro R) auto
    ultimately show ?thesis
      using L by (simp add: res)
  next
    case False
    then have ij: "i' \<le> j'" by simp
    then have "i' \<noteq> j'"
      using stop up(4) down(1) by force
    then have lt: "i' < j'" using ij by simp
    let ?d = "swap data i' j'"
    have bounds: "a < i'" "j' < b" "j' < length data" "i' < length data"
      using up(1) down(1) lt "1.prems"(2,4,5) by auto
    have nth: "?d ! k = (if k = j' then data ! i' else if k = i' then data ! j' else data ! k)" for k
      using bounds by (simp add: swap_nth)
    have eq: "partitionEqual_loop lessf ?d a (i' + 1) (j' - 1) = (data', m)"
      using "1.prems"(8) False
      by (subst (asm) partitionEqual_loop.simps) (simp add: Let_def i'_def j'_def)
    have da: "?d ! a = data ! a"
      using bounds lt by (simp add: nth)
    have L': "\<forall>k. a < k \<and> k < i' + 1 \<longrightarrow> key (?d ! k) \<le> key (?d ! a)"
    proof (intro allI impI)
      fix k assume k: "a < k \<and> k < i' + 1"
      show "key (?d ! k) \<le> key (?d ! a)"
      proof (cases "k = i'")
        case True
        then show ?thesis using stop [OF ij] lt bounds by (simp add: nth)
      next
        case False
        then have "k < i'" using k by simp
        then show ?thesis using L [of k] k lt bounds by (simp add: nth)
      qed
    qed
    have R': "\<forall>k. j' - 1 < k \<and> k < b \<longrightarrow> key (?d ! a) < key (?d ! k)"
    proof (intro allI impI)
      fix k assume k: "j' - 1 < k \<and> k < b"
      show "key (?d ! a) < key (?d ! k)"
      proof (cases "k = j'")
        case True
        then show ?thesis using up(4) ij down(1) lt bounds by (simp add: nth)
      next
        case False
        then have "j' < k" using k by auto
        then show ?thesis using R [of k] k lt bounds by (simp add: nth)
      qed
    qed
    have IH: "permuted_on (a + 1) b ?d data' \<and> a < m \<and> m \<le> b \<and>
       (\<forall>k. a < k \<and> k < m \<longrightarrow> key (data' ! k) \<le> key (?d ! a)) \<and>
       (\<forall>k. m \<le> k \<and> k < b \<longrightarrow> key (?d ! a) < key (data' ! k))"
      using bounds lt "1.prems"(5) L' R' eq
      by (intro "1.IH" [OF i'_def j'_def _ keyed]) (auto simp: False)
    have "permuted_on (a + 1) b data ?d"
      using bounds lt "1.prems"(5) by (intro permuted_on_swap) auto
    then show ?thesis
      using IH by (auto simp: da intro: permuted_on_trans)
  qed
qed

lemma partitionEqual_func_spec:
  assumes keyed: "keyed lessf key" and piv: "a \<le> pivot" "pivot < b" and len: "b \<le> length data"
    and res: "partitionEqual_func lessf data a b pivot = (d, mid)"
  shows "permuted_on a b data d \<and> a < mid \<and> mid \<le> b \<and>
         (\<forall>k. a \<le> k \<and> k < mid \<longrightarrow> key (d ! k) \<le> key (data ! pivot)) \<and>
         (\<forall>k. mid \<le> k \<and> k < b \<longrightarrow> key (data ! pivot) < key (d ! k))"
proof -
  let ?d0 = "swap data a pivot"
  have loop: "partitionEqual_loop lessf ?d0 a (a + 1) (b - 1) = (d, mid)"
    using res by (simp add: partitionEqual_func_def Let_def)
  have d0a: "?d0 ! a = data ! pivot"
    using piv len by (simp add: swap_nth)
  have spec: "permuted_on (a + 1) b ?d0 d \<and> a < mid \<and> mid \<le> b \<and>
     (\<forall>k. a < k \<and> k < mid \<longrightarrow> key (d ! k) \<le> key (?d0 ! a)) \<and>
     (\<forall>k. mid \<le> k \<and> k < b \<longrightarrow> key (?d0 ! a) < key (d ! k))"
    using piv len by (intro partitionEqual_loop_spec [OF keyed _ _ _ _ _ _ loop]) auto
  then have perm: "permuted_on (a + 1) b ?d0 d" and mid: "a < mid" "mid \<le> b"
    and L: "\<And>k. a < k \<Longrightarrow> k < mid \<Longrightarrow> key (d ! k) \<le> key (data ! pivot)"
    and R: "\<And>k. mid \<le> k \<Longrightarrow> k < b \<Longrightarrow> key (data ! pivot) < key (d ! k)"
    by (auto simp: d0a)
  have da: "d ! a = data ! pivot"
    using permuted_on_outside [OF perm, of a] by (simp add: d0a)
  have "permuted_on a b data ?d0"
    using piv len by (intro permuted_on_swap) auto
  moreover have "permuted_on a b ?d0 d"
    using perm by (rule permuted_on_mono) auto
  ultimately have "permuted_on a b data d"
    by (blast intro: permuted_on_trans)
  moreover have "key (d ! k) \<le> key (data ! pivot)" if "a \<le> k" "k < mid" for k
    using that L [of k] da by (cases "k = a") auto
  ultimately show ?thesis using mid R by blast
qed

lemma siftDown_func_unfold:
  assumes "\<not> hi \<le> 2 * root + 1"
    and "c = (if 2 * root + 1 + 1 < hi \<and>
                 lessf (data ! (first + (2 * root + 1))) (data ! (first + (2 * root + 1) + 1))
              then 2 * root + 1 + 1 else 2 * root + 1)"
  shows "siftDown_func lessf data root hi first =
     (if \<not> lessf (data ! (first + root)) (data ! (first + c)) then data
      else siftDown_func lessf (swap data (first + root) (first + c)) c hi first)"
  apply (subst siftDown_func.simps)
  unfolding Let_def assms(2) [symmetric]
  using assms(1) apply (simp only: if_False)
  done

lemma siftDown_func_spec:
  "keyed lessf key \<Longrightarrow> first + hi \<le> length data \<Longrightarrow> lo \<le> root \<Longrightarrow>
   (\<forall>p. lo \<le> p \<and> p \<noteq> root \<longrightarrow> edge_ok key data first hi p) \<Longrightarrow>
   (\<forall>p c. lo \<le> p \<and> (root = 2 * p + 1 \<or> root = 2 * p + 2) \<and>
      (c = 2 * root + 1 \<or> c = 2 * root + 2) \<and> c < hi \<longrightarrow>
      key (data ! (first + c)) \<le> key (data ! (first + p))) \<Longrightarrow>
   (\<forall>p. lo \<le> p \<longrightarrow> edge_ok key (siftDown_func lessf data root hi first) first hi p) \<and>
   permuted_on first (first + hi) data (siftDown_func lessf data root hi first)"
proof (induction lessf data root hi first rule: siftDown_func.induct)
  case (1 lessf data root hi first)
  note keyed = "1.prems"(1) and len = "1.prems"(2) and lo = "1.prems"(3)
  have others: "edge_ok key data first hi p" if "lo \<le> p" "p \<noteq> root" for p
    using "1.prems"(4) that by blast
  have grand: "key (data ! (first + c)) \<le> key (data ! (first + p))"
    if "lo \<le> p" "root = 2 * p + 1 \<or> root = 2 * p + 2" "c = 2 * root + 1 \<or> c = 2 * root + 2" "c < hi"
    for p c
    using "1.prems"(5) that by blast
  let ?child = "2 * root + 1"
  show ?case
  proof (cases "?child \<ge> hi")
    case True
    then have eq: "siftDown_func lessf data root hi first = data"
      by (subst siftDown_func.simps) (simp add: Let_def)
    have "edge_ok key data first hi root"
      using True by (auto simp: edge_ok_def)
    then show ?thesis
      using others by (auto simp: eq)
  next
    case False
    let ?c = "if ?child + 1 < hi \<and> lessf (data ! (first + ?child)) (data ! (first + ?child + 1))
              then ?child + 1 else ?child"
    define c where "c = ?c"
    have c_cases: "c = 2 * root + 1 \<or> c = 2 * root + 2" and c_hi: "c < hi"
      using False by (auto simp: c_def)
    have c_max: "key (data ! (first + x)) \<le> key (data ! (first + c))"
      if "x = 2 * root + 1 \<or> x = 2 * root + 2" "x < hi" for x
    proof -
      have "lessf (data ! (first + ?child)) (data ! (first + ?child + 1)) =
            (key (data ! (first + ?child)) < key (data ! (first + ?child + 1)))"
        using keyed by (rule keyedD)
      then show ?thesis
        using that by (auto simp: c_def add.assoc)
    qed
    have lt: "lessf (data ! (first + root)) (data ! (first + c)) =
              (key (data ! (first + root)) < key (data ! (first + c)))"
      using keyed by (rule keyedD)
    show ?thesis
    proof (cases "lessf (data ! (first + root)) (data ! (first + c))")
      case stop: False
      then have eq: "siftDown_func lessf data root hi first = data"
        using siftDown_func_unfold [where lessf = lessf and data = data and first = first, OF \<open>\<not> hi \<le> ?child\<close> c_def] by simp
      have "edge_ok key data first hi root"
        unfolding edge_ok_def
      proof (intro allI impI)
        fix x assume x: "(x = 2 * root + 1 \<or> x = 2 * root + 2) \<and> x < hi"
        then have "key (data ! (first + x)) \<le> key (data ! (first + c))"
          by (intro c_max) auto
        also have "\<dots> \<le> key (data ! (first + root))"
          using stop by (simp add: lt)
        finally show "key (data ! (first + x)) \<le> key (data ! (first + root))" .
      qed
      then show ?thesis
        using others by (auto simp: eq)
    next
      case go: True
      let ?d = "swap data (first + root) (first + c)"
      have eq: "siftDown_func lessf data root hi first = siftDown_func lessf ?d c hi first"
        using siftDown_func_unfold [where lessf = lessf and data = data and first = first, OF \<open>\<not> hi \<le> ?child\<close> c_def] go by simp
      have rc: "root < c" using c_cases by auto
      have inr: "first + root < length data" "first + c < length data"
        using rc c_hi len by auto
      have nth: "?d ! (first + x) =
          (if x = c then data ! (first + root) else if x = root then data ! (first + c)
           else data ! (first + x))" for x
        using inr by (simp add: swap_nth)
      have A: "\<forall>p. lo \<le> p \<and> p \<noteq> c \<longrightarrow> edge_ok key ?d first hi p"
      proof (intro allI impI)
        fix p assume p: "lo \<le> p \<and> p \<noteq> c"
        show "edge_ok key ?d first hi p"
        proof (cases "p = root")
          case True
          show ?thesis
            unfolding edge_ok_def
          proof (intro allI impI)
            fix x assume x: "(x = 2 * p + 1 \<or> x = 2 * p + 2) \<and> x < hi"
            show "key (?d ! (first + x)) \<le> key (?d ! (first + p))"
            proof (cases "x = c")
              case True
              then show ?thesis using go rc \<open>p = root\<close> by (simp add: nth lt)
            next
              case False
              have "key (data ! (first + x)) \<le> key (data ! (first + c))"
                using x \<open>p = root\<close> by (intro c_max) auto
              then show ?thesis using False x rc \<open>p = root\<close> by (auto simp: nth)
            qed
          qed
        next
          case False
          have old: "edge_ok key data first hi p"
            using p False by (intro others) auto
          show ?thesis
            unfolding edge_ok_def
          proof (intro allI impI)
            fix x assume x: "(x = 2 * p + 1 \<or> x = 2 * p + 2) \<and> x < hi"
            have xc: "x \<noteq> c" using x c_cases False by auto
            have pv: "?d ! (first + p) = data ! (first + p)"
              using p False by (simp add: nth)
            show "key (?d ! (first + x)) \<le> key (?d ! (first + p))"
            proof (cases "x = root")
              case True
              have "key (data ! (first + c)) \<le> key (data ! (first + p))"
                using p x True c_cases c_hi by (intro grand) auto
              then show ?thesis using True rc p by (simp add: nth)
            next
              case False
              have "key (data ! (first + x)) \<le> key (data ! (first + p))"
                using old x unfolding edge_ok_def by blast
              moreover have "?d ! (first + x) = data ! (first + x)"
                using False xc by (simp add: nth)
              ultimately show ?thesis by (simp add: pv)
            qed
          qed
        qed
      qed
      have B: "\<forall>p x. lo \<le> p \<and> (c = 2 * p + 1 \<or> c = 2 * p + 2) \<and>
          (x = 2 * c + 1 \<or> x = 2 * c + 2) \<and> x < hi \<longrightarrow>
          key (?d ! (first + x)) \<le> key (?d ! (first + p))"
      proof (intro allI impI)
        fix p x
        assume h: "lo \<le> p \<and> (c = 2 * p + 1 \<or> c = 2 * p + 2) \<and>
          (x = 2 * c + 1 \<or> x = 2 * c + 2) \<and> x < hi"
        then have "p = root" using c_cases by auto
        have "edge_ok key data first hi c"
          using lo rc by (intro others) auto
        then have "key (data ! (first + x)) \<le> key (data ! (first + c))"
          using h by (auto simp: edge_ok_def)
        moreover have "x \<noteq> c" "x \<noteq> root" using h rc by auto
        ultimately show "key (?d ! (first + x)) \<le> key (?d ! (first + p))"
          using \<open>p = root\<close> rc by (simp add: nth)
      qed
      have IH: "(\<forall>p. lo \<le> p \<longrightarrow> edge_ok key (siftDown_func lessf ?d c hi first) first hi p) \<and>
         permuted_on first (first + hi) ?d (siftDown_func lessf ?d c hi first)"
        using \<open>\<not> hi \<le> ?child\<close> go len lo rc A B
        unfolding c_def
        by (intro "1.IH" [OF refl _ refl _ keyed]) auto
      have "permuted_on first (first + hi) data ?d"
        using rc c_hi len by (intro permuted_on_swap) auto
      then show ?thesis
        using IH by (auto simp: eq intro: permuted_on_trans)
    qed
  qed
qed

lemma heap_build_spec:
  "keyed lessf key \<Longrightarrow> first + hi \<le> length data \<Longrightarrow>
   (\<forall>p. i < p \<longrightarrow> edge_ok key data first hi p) \<Longrightarrow>
   (\<forall>p. edge_ok key (heap_build lessf data i hi first) first hi p) \<and>
   permuted_on first (first + hi) data (heap_build lessf data i hi first)"
proof (induction i arbitrary: data)
  case 0
  have "(\<forall>p. 0 \<le> p \<longrightarrow> edge_ok key (siftDown_func lessf data 0 hi first) first hi p) \<and>
        permuted_on first (first + hi) data (siftDown_func lessf data 0 hi first)"
    using 0 by (intro siftDown_func_spec) auto
  then show ?case by simp
next
  case (Suc i)
  let ?d = "siftDown_func lessf data (Suc i) hi first"
  have d: "(\<forall>p. Suc i \<le> p \<longrightarrow> edge_ok key ?d first hi p) \<and>
        permuted_on first (first + hi) data ?d"
    using Suc.prems by (intro siftDown_func_spec) auto
  then have len: "length ?d = length data"
    by (auto dest: permuted_on_length)
  have "(\<forall>p. edge_ok key (heap_build lessf ?d i hi first) first hi p) \<and>
        permuted_on first (first + hi) ?d (heap_build lessf ?d i hi first)"
    using Suc.prems d len by (intro Suc.IH) auto
  then show ?case
    using d by (auto intro: permuted_on_trans)
qed

lemma heap_root_max:
  assumes "\<forall>p. edge_ok key data first hi p"
  shows "c < hi \<Longrightarrow> key (data ! (first + c)) \<le> key (data ! first)"
proof (induction c rule: less_induct)
  case (less c)
  show ?case
  proof (cases "c = 0")
    case True
    then show ?thesis by simp
  next
    case False
    define p where "p = (c - 1) div 2"
    have c: "c = 2 * p + 1 \<or> c = 2 * p + 2" and pc: "p < c"
      using False unfolding p_def by presburger+
    have "key (data ! (first + c)) \<le> key (data ! (first + p))"
      using assms c less.prems unfolding edge_ok_def by blast
    also have "\<dots> \<le> key (data ! first)"
      using pc less.prems by (intro less.IH) auto
    finally show ?thesis .
  qed
qed

lemma heap_pop_spec:
  "keyed lessf key \<Longrightarrow> first + hi \<le> length data \<Longrightarrow> n \<le> hi \<Longrightarrow>
   (\<forall>p. edge_ok key data first n p) \<Longrightarrow>
   sorted_on key (first + n) (first + hi) data \<Longrightarrow>
   (\<forall>c k. c < n \<and> n \<le> k \<and> k < hi \<longrightarrow> key (data ! (first + c)) \<le> key (data ! (first + k))) \<Longrightarrow>
   sorted_on key first (first + hi) (heap_pop lessf data n first) \<and>
   permuted_on first (first + hi) data (heap_pop lessf data n first)"
proof (induction n arbitrary: data)
  case 0
  then show ?case by simp
next
  case (Suc i)
  note keyed = Suc.prems(1) and len = Suc.prems(2) and ihi = Suc.prems(3)
  have heap: "\<And>p. edge_ok key data first (Suc i) p"
    using Suc.prems(4) by blast
  have srt: "sorted_on key (first + Suc i) (first + hi) data"
    using Suc.prems(5) .
  have cross: "\<And>c k. c < Suc i \<Longrightarrow> Suc i \<le> k \<Longrightarrow> k < hi \<Longrightarrow>
      key (data ! (first + c)) \<le> key (data ! (first + k))"
    using Suc.prems(6) by blast
  have top: "key (data ! (first + c)) \<le> key (data ! first)" if "c < Suc i" for c
    using heap that by (intro heap_root_max) auto
  let ?d1 = "swap data first (first + i)"
  let ?d2 = "siftDown_func lessf ?d1 0 i first"
  have nth1: "?d1 ! (first + x) =
      (if x = i then data ! first else if x = 0 then data ! (first + i) else data ! (first + x))" for x
    using len ihi by (simp add: swap_nth)
  have p01: "permuted_on first (first + hi) data ?d1"
    using len ihi by (intro permuted_on_swap) auto
  have edges1: "\<forall>p. 0 \<le> p \<and> p \<noteq> 0 \<longrightarrow> edge_ok key ?d1 first i p"
  proof (intro allI impI)
    fix p :: nat assume p: "0 \<le> p \<and> p \<noteq> 0"
    show "edge_ok key ?d1 first i p"
      unfolding edge_ok_def
    proof (intro allI impI)
      fix c assume c: "(c = 2 * p + 1 \<or> c = 2 * p + 2) \<and> c < i"
      then have "key (data ! (first + c)) \<le> key (data ! (first + p))"
        using heap [of p] unfolding edge_ok_def by auto
      moreover have "c \<noteq> 0" "c \<noteq> i" "p \<noteq> i" "p \<noteq> 0" using c p by auto
      ultimately show "key (?d1 ! (first + c)) \<le> key (?d1 ! (first + p))"
        by (simp add: nth1)
    qed
  qed
  have d2: "(\<forall>p. 0 \<le> p \<longrightarrow> edge_ok key ?d2 first i p) \<and>
        permuted_on first (first + i) ?d1 ?d2"
    using keyed len ihi edges1 by (intro siftDown_func_spec) auto
  then have p12: "permuted_on first (first + i) ?d1 ?d2" and heap2: "\<forall>p. edge_ok key ?d2 first i p"
    by auto
  have len2: "length ?d2 = length data"
    using permuted_on_length [OF p12] by simp
  have out2: "?d2 ! (first + k) = ?d1 ! (first + k)" if "i \<le> k" for k
    using permuted_on_outside [OF p12, of "first + k"] that by simp
  have srt2: "sorted_on key (first + i) (first + hi) ?d2"
    unfolding sorted_on_def
  proof (intro allI impI)
    fix x y assume xy: "first + i \<le> x \<and> x < y \<and> y < first + hi"
    define k1 where "k1 = x - first"
    define k2 where "k2 = y - first"
    have k: "x = first + k1" "y = first + k2" "i \<le> k1" "k1 < k2" "k2 < hi"
      using xy by (auto simp: k1_def k2_def)
    have "key (?d1 ! (first + k1)) \<le> key (?d1 ! (first + k2))"
    proof (cases "k1 = i")
      case True
      have "key (data ! (first + 0)) \<le> key (data ! (first + k2))"
        using k True by (intro cross) auto
      then show ?thesis using True k by (simp add: nth1)
    next
      case False
      have "key (data ! (first + k1)) \<le> key (data ! (first + k2))"
        using srt k False unfolding sorted_on_def by auto
      then show ?thesis using False k by (simp add: nth1)
    qed
    then show "key (?d2 ! x) \<le> key (?d2 ! y)"
      using k by (simp add: out2)
  qed
  have cross2: "\<forall>c k. c < i \<and> i \<le> k \<and> k < hi \<longrightarrow>
      key (?d2 ! (first + c)) \<le> key (?d2 ! (first + k))"
  proof (intro allI impI)
    fix c k assume ck: "c < i \<and> i \<le> k \<and> k < hi"
    have all1: "key (?d1 ! x) \<le> key (?d1 ! (first + k))" if "first \<le> x" "x < first + i" for x
    proof -
      define c' where "c' = x - first"
      have x: "x = first + c'" "c' < i" using that by (auto simp: c'_def)
      have "key (?d1 ! (first + c')) \<le> key (?d1 ! (first + k))"
      proof (cases "k = i")
        case True
        have "key (data ! (first + i)) \<le> key (data ! first)"
          "key (data ! (first + c')) \<le> key (data ! first)"
          using x by (auto intro!: top)
        then show ?thesis using True x by (simp add: nth1)
      next
        case False
        have "key (data ! (first + i)) \<le> key (data ! (first + k))"
          "key (data ! (first + c')) \<le> key (data ! (first + k))"
          using x ck False by (auto intro!: cross)
        then show ?thesis using False x ck by (simp add: nth1)
      qed
      then show ?thesis using x by simp
    qed
    have "key (?d2 ! (first + c)) \<le> key (?d1 ! (first + k))"
      using len ihi ck
      by (intro permuted_on_all [OF p12, where P = "\<lambda>v. key v \<le> key (?d1 ! (first + k))"])
         (auto intro: all1)
    then show "key (?d2 ! (first + c)) \<le> key (?d2 ! (first + k))"
      using ck by (simp add: out2)
  qed
  have IH: "sorted_on key first (first + hi) (heap_pop lessf ?d2 i first) \<and>
     permuted_on first (first + hi) ?d2 (heap_pop lessf ?d2 i first)"
    using keyed len ihi len2 heap2 srt2 cross2 by (intro Suc.IH) auto
  have "permuted_on first (first + hi) ?d1 ?d2"
    using ihi by (intro permuted_on_mono [OF p12]) auto
  then show ?case
    using IH p01 by (auto intro: permuted_on_trans)
qed

lemma heapSort_func_spec:
  assumes "keyed lessf key" and "a \<le> b" and "b \<le> length data"
  shows "sorted_on key a b (heapSort_func lessf data a b) \<and>
         permuted_on a b data (heapSort_func lessf data a b)"
proof -
  define hi where "hi = b - a"
  let ?d = "heap_build lessf data ((hi - 1) div 2) hi a"
  have ab: "a + hi = b" using assms(2) by (simp add: hi_def)
  have "edge_ok key data a hi p" if "(hi - 1) div 2 < p" for p
    using that unfolding edge_ok_def by auto
  then have build: "(\<forall>p. edge_ok key ?d a hi p) \<and> permuted_on a (a + hi) data ?d"
    using assms ab by (intro heap_build_spec) auto
  then have len: "length ?d = length data"
    by (auto dest: permuted_on_length)
  have "sorted_on key a (a + hi) (heap_pop lessf ?d hi a) \<and>
        permuted_on a (a + hi) ?d (heap_pop lessf ?d hi a)"
    using assms ab build len by (intro heap_pop_spec) (auto simp: sorted_on_def)
  then show ?thesis
    using build unfolding heapSort_func_def Let_def hi_def [symmetric] ab
    by (auto intro: permuted_on_trans)
qed

lemma reverse_loop_perm:
  "a \<le> i \<Longrightarrow> j < b \<Longrightarrow> b \<le> length data \<Longrightarrow> permuted_on a b data (reverse_loop data i j)"
proof (induction data i j rule: reverse_loop.induct)
  case (1 data i j)
  show ?case
  proof (cases "i < j")
    case True
    have "permuted_on a b data (swap data i j)"
      using 1(2-) True by (intro permuted_on_swap) auto
    moreover have "permuted_on a b (swap data i j) (reverse_loop (swap data i j) (i + 1) (j - 1))"
      using 1(2-) True by (intro "1.IH") auto
    moreover have "reverse_loop data i j = reverse_loop (swap data i j) (i + 1) (j - 1)"
      using True by (subst reverse_loop.simps) simp
    ultimately show ?thesis by (auto intro: permuted_on_trans)
  next
    case False
    then show ?thesis by (subst reverse_loop.simps) simp
  qed
qed

lemma reverseRange_func_perm:
  "a < b \<Longrightarrow> b \<le> length data \<Longrightarrow> permuted_on a b data (reverseRange_func data a b)"
  unfolding reverseRange_func_def by (intro reverse_loop_perm) auto

lemma bits_Len_bounds: "0 < n \<Longrightarrow> 2 ^ bits_Len n \<le> 2 * n"
proof (induction n rule: bits_Len.induct)
  case (1 n)
  show ?case
  proof (cases "n div 2 = 0")
    case True
    then have "n = 1" using "1.prems" by auto
    then show ?thesis by (simp add: bits_Len.simps [of "Suc 0"] bits_Len.simps [of 0])
  next
    case False
    then have "2 ^ bits_Len (n div 2) \<le> 2 * (n div 2)"
      using "1.IH" "1.prems" by simp
    then have "2 * 2 ^ bits_Len (n div 2) \<le> 2 * n" by simp
    then show ?thesis
      using "1.prems" by (subst bits_Len.simps) simp
  qed
qed

lemma bits_Len_pos: "0 < n \<Longrightarrow> 0 < bits_Len n"
  by (subst bits_Len.simps) simp

lemma unat_and_modulus: "unat (r AND (nextPowerOfTwo len - 1)) < 2 ^ bits_Len len"
proof -
  have "nextPowerOfTwo len - 1 = (mask (bits_Len len) :: 64 word)"
    by (simp add: nextPowerOfTwo_def mask_eq_exp_minus_1)
  then have "r AND (nextPowerOfTwo len - 1) = take_bit (bits_Len len) r"
    by (simp add: take_bit_eq_mask)
  then have "unat (r AND (nextPowerOfTwo len - 1)) = take_bit (bits_Len len) (unat r)"
    by (simp add: unsigned_take_bit_eq)
  then show ?thesis
    by simp
qed

lemma breakPatterns_swaps_perm:
  "a \<le> idx - 1 + i \<Longrightarrow> idx - 1 + i + n \<le> b \<Longrightarrow> a + len \<le> b \<Longrightarrow> b \<le> length data \<Longrightarrow>
   0 < len \<Longrightarrow> modulus = nextPowerOfTwo len \<Longrightarrow>
   permuted_on a b data (breakPatterns_swaps data a len random modulus idx i n)"
proof (induction n arbitrary: data random i)
  case 0
  then show ?case by simp
next
  case (Suc n)
  define r where "r = xorshift_Next random"
  define o1 where "o1 = unat (r AND (modulus - 1))"
  define other where "other = (if o1 \<ge> len then o1 - len else o1)"
  have "o1 < 2 ^ bits_Len len"
    unfolding o1_def Suc.prems(6) by (rule unat_and_modulus)
  also have "\<dots> \<le> 2 * len"
    using Suc.prems(5) by (rule bits_Len_bounds)
  finally have other: "other < len"
    by (auto simp: other_def)
  let ?d = "swap data (idx - 1 + i) (a + other)"
  have "permuted_on a b data ?d"
    using Suc.prems other by (intro permuted_on_swap) auto
  moreover have "permuted_on a b ?d (breakPatterns_swaps ?d a len r modulus idx (i + 1) n)"
    using Suc.prems by (intro Suc.IH) auto
  moreover have "breakPatterns_swaps data a len random modulus idx i (Suc n) =
      breakPatterns_swaps ?d a len r modulus idx (i + 1) n"
    by (simp add: Let_def r_def o1_def other_def)
  ultimately show ?case by (auto intro: permuted_on_trans)
qed

lemma breakPatterns_func_perm:
  assumes "a \<le> b" and "b \<le> length data"
  shows "permuted_on a b data (breakPatterns_func data a b)"
proof (cases "b - a \<ge> 8")
  case True
  define len where "len = b - a"
  have q: "2 \<le> len div 4" "(len div 4) * 2 + 2 \<le> len"
    using True by (auto simp: len_def)
  have "permuted_on a b data
     (breakPatterns_swaps data a len (word_of_nat len) (nextPowerOfTwo len)
        (a + (len div 4) * 2) 0 3)"
    using assms True q by (intro breakPatterns_swaps_perm) (auto simp: len_def)
  then show ?thesis
    using True by (simp add: breakPatterns_func_def Let_def len_def)
next
  case False
  then show ?thesis by (simp add: breakPatterns_func_def Let_def)
qed

lemma order2_func_cases:
  "order2_func lessf data x y s = (x', y', s') \<Longrightarrow> (x' = x \<and> y' = y) \<or> (x' = y \<and> y' = x)"
  by (auto simp: order2_func_def split: if_splits)

lemma median_func_in:
  assumes "median_func lessf data x y z s = (m, s')"
  shows "m = x \<or> m = y \<or> m = z"
proof -
  obtain x1 y1 s1 where o1: "order2_func lessf data x y s = (x1, y1, s1)"
    by (metis prod_cases3)
  obtain y2 z2 s2 where o2: "order2_func lessf data y1 z s1 = (y2, z2, s2)"
    by (metis prod_cases3)
  obtain x3 y3 s3 where o3: "order2_func lessf data x1 y2 s2 = (x3, y3, s3)"
    by (metis prod_cases3)
  have "m = y3"
    using assms by (simp add: median_func_def o1 o2 o3)
  then show ?thesis
    using order2_func_cases [OF o1] order2_func_cases [OF o2] order2_func_cases [OF o3]
    by auto
qed

lemma medianAdjacent_func_in:
  "medianAdjacent_func lessf data x s = (m, s') \<Longrightarrow> m = x - 1 \<or> m = x \<or> m = x + 1"
  unfolding medianAdjacent_func_def by (rule median_func_in)

lemma choosePivot_func_range:
  assumes "choosePivot_func lessf data a b = (pivot, hint)" and "12 < b - a"
  shows "a \<le> pivot \<and> pivot < b"
proof -
  let ?l = "b - a"
  let ?i = "a + ?l div 4 * 1"
  let ?j = "a + ?l div 4 * 2"
  let ?k = "a + ?l div 4 * 3"
  have q: "3 \<le> ?l div 4" "?l div 4 * 3 + 2 \<le> ?l"
    using assms(2) by auto
  define t where "t = (if ?l \<ge> 50 then
             (case medianAdjacent_func lessf data ?i 0 of (i, swaps) \<Rightarrow>
              case medianAdjacent_func lessf data ?j swaps of (j, swaps) \<Rightarrow>
              case medianAdjacent_func lessf data ?k swaps of (k, swaps) \<Rightarrow>
                (i, j, k, swaps))
           else (?i, ?j, ?k, 0))"
  obtain i' j' k' s where t: "t = (i', j', k', s)"
    by (cases t)
  have adj: "(if ?l \<ge> 50 then
             (case medianAdjacent_func lessf data ?i 0 of (i, swaps) \<Rightarrow>
              case medianAdjacent_func lessf data ?j swaps of (j, swaps) \<Rightarrow>
              case medianAdjacent_func lessf data ?k swaps of (k, swaps) \<Rightarrow>
                (i, j, k, swaps))
           else (?i, ?j, ?k, 0)) = (i', j', k', s)"
    using t unfolding t_def .
  have near: "(i' = ?i - 1 \<or> i' = ?i \<or> i' = ?i + 1) \<and> (j' = ?j - 1 \<or> j' = ?j \<or> j' = ?j + 1) \<and>
      (k' = ?k - 1 \<or> k' = ?k \<or> k' = ?k + 1)"
  proof (cases "?l \<ge> 50")
    case True
    obtain i1 s1 where m1: "medianAdjacent_func lessf data ?i 0 = (i1, s1)" by fastforce
    obtain j1 s2 where m2: "medianAdjacent_func lessf data ?j s1 = (j1, s2)" by fastforce
    obtain k1 s3 where m3: "medianAdjacent_func lessf data ?k s2 = (k1, s3)" by fastforce
    have "i' = i1" "j' = j1" "k' = k1"
      using adj True by (simp_all only: m1 m2 m3 if_True prod.case prod.inject)
    then show ?thesis
      using medianAdjacent_func_in [OF m1] medianAdjacent_func_in [OF m2]
        medianAdjacent_func_in [OF m3] by simp
  next
    case False
    then show ?thesis using adj by (simp only: if_False prod.inject) simp
  qed
  obtain m s' where med: "median_func lessf data i' j' k' s = (m, s')" by fastforce
  have 8: "8 \<le> ?l" using assms(2) by simp
  have "(if s' = 0 then (m, increasingHint)
         else if s' = 12 then (m, decreasingHint) else (m, unknownHint)) = (pivot, hint)"
    using assms(1) unfolding choosePivot_func_def Let_def adj
    by (simp only: 8 if_True prod.case med)
  then have "pivot = m"
    by (cases "s' = 0"; cases "s' = 12"; simp)
  moreover have "m = i' \<or> m = j' \<or> m = k'"
    using med by (rule median_func_in)
  moreover have bnd: "a \<le> ?i - 1" "?i \<le> ?j" "?j \<le> ?k" "?k + 1 < b"
    using q by simp_all
  have "a \<le> i' \<and> i' < b"
    using conjunct1 [OF near] bnd by linarith
  moreover have "a \<le> j' \<and> j' < b"
    using conjunct1 [OF conjunct2 [OF near]] bnd by linarith
  moreover have "a \<le> k' \<and> k' < b"
    using conjunct2 [OF conjunct2 [OF near]] bnd by linarith
  ultimately show ?thesis
    by blast
qed

lemma pdqsort_choose_spec:
  assumes "pdqsort_choose lessf data a b limit wb = (d, limit', pivot, hint)"
    and "12 < b - a" and "b \<le> length data"
  shows "permuted_on a b data d \<and> a \<le> pivot \<and> pivot < b"
proof -
  define d0 where "d0 = (if \<not> wb then breakPatterns_func data a b else data)"
  have ab: "a \<le> b" using assms(2) by simp
  have p0: "permuted_on a b data d0"
    unfolding d0_def using breakPatterns_func_perm [OF ab assms(3)] by simp
  then have len0: "length d0 = length data" by (rule permuted_on_length)
  obtain p h where cp: "choosePivot_func lessf d0 a b = (p, h)"
    using prod.exhaust by blast
  have p: "a \<le> p" "p < b"
    using choosePivot_func_range [OF cp assms(2)] by auto
  have res: "(d, limit', pivot, hint) =
      (if h = decreasingHint
       then (reverseRange_func d0 a b, (if \<not> wb then limit - 1 else limit), (b - 1) - (p - a), increasingHint)
       else (d0, (if \<not> wb then limit - 1 else limit), p, h))"
    using assms(1) unfolding pdqsort_choose_def Let_def d0_def [symmetric] cp prod.case
    by (rule sym)
  show ?thesis
  proof (cases "h = decreasingHint")
    case True
    then have "d = reverseRange_func d0 a b" "pivot = (b - 1) - (p - a)"
      using res by simp_all
    moreover have "permuted_on a b d0 (reverseRange_func d0 a b)"
      using assms(2,3) len0 by (intro reverseRange_func_perm) auto
    ultimately show ?thesis
      using p0 p by (auto intro: permuted_on_trans)
  next
    case False
    then have "d = d0" "pivot = p"
      using res by simp_all
    then show ?thesis using p0 p by simp
  qed
qed

lemma shift_left_eq: "shift_left lessf data j = insertion_shift lessf data 0 j"
proof (induction lessf data j rule: shift_left.induct)
  case (1 lessf data j)
  show ?case
  proof (cases "j \<ge> 1 \<and> lessf (data ! j) (data ! (j - 1))")
    case True
    then have "shift_left lessf data j = shift_left lessf (swap data j (j - 1)) (j - 1)"
      by (subst shift_left.simps) simp
    moreover have "insertion_shift lessf data 0 j =
        insertion_shift lessf (swap data j (j - 1)) 0 (j - 1)"
      using True by (subst insertion_shift.simps) simp
    ultimately show ?thesis
      using "1.IH" True by simp
  next
    case False
    then have "shift_left lessf data j = data"
      by (subst shift_left.simps) auto
    moreover have "insertion_shift lessf data 0 j = data"
      using False by (subst insertion_shift.simps) auto
    ultimately show ?thesis by simp
  qed
qed

lemma insertion_shift_lower:
  "keyed lessf key \<Longrightarrow> a \<le> j \<Longrightarrow> j < length data \<Longrightarrow>
   (0 < a \<longrightarrow> key (data ! (a - 1)) \<le> key (data ! j)) \<Longrightarrow>
   insertion_shift lessf data 0 j = insertion_shift lessf data a j"
proof (induction lessf data a j rule: insertion_shift.induct)
  case (1 lessf data a j)
  have lt: "lessf (data ! j) (data ! (j - Suc 0)) = (key (data ! j) < key (data ! (j - Suc 0)))"
    using "1.prems"(1) by (rule keyedD)
  show ?case
  proof (cases "j > a \<and> lessf (data ! j) (data ! (j - 1))")
    case True
    let ?d = "swap data j (j - 1)"
    have "insertion_shift lessf data 0 j = insertion_shift lessf ?d 0 (j - 1)"
      using True by (subst insertion_shift.simps) simp
    moreover have "insertion_shift lessf data a j = insertion_shift lessf ?d a (j - 1)"
      using True insertion_shift.simps [of lessf data a j] by simp
    moreover have "insertion_shift lessf ?d 0 (j - 1) = insertion_shift lessf ?d a (j - 1)"
    proof (rule "1.IH" [OF True "1.prems"(1)])
      show "a \<le> j - 1" using True by auto
      show "j - 1 < length ?d" using "1.prems"(3) by simp
      show "0 < a \<longrightarrow> key (?d ! (a - 1)) \<le> key (?d ! (j - 1))"
        using "1.prems"(3,4) True by (auto simp: swap_nth)
    qed
    ultimately show ?thesis by simp
  next
    case False
    then have r: "insertion_shift lessf data a j = data"
      by (subst insertion_shift.simps) auto
    have "\<not> (j > 0 \<and> lessf (data ! j) (data ! (j - 1)))"
      using False "1.prems"(2,4) lt by (cases "j = a") auto
    then have "insertion_shift lessf data 0 j = data"
      by (subst insertion_shift.simps) auto
    then show ?thesis using r by simp
  qed
qed

lemma partial_scan_spec:
  "keyed lessf key \<Longrightarrow>
   i \<le> partial_scan lessf data i b \<and>
   (i \<le> b \<longrightarrow> partial_scan lessf data i b \<le> b) \<and>
   (\<forall>k. i \<le> k \<and> k < partial_scan lessf data i b \<longrightarrow> key (data ! (k - 1)) \<le> key (data ! k)) \<and>
   (partial_scan lessf data i b < b \<longrightarrow>
      key (data ! partial_scan lessf data i b) < key (data ! (partial_scan lessf data i b - 1)))"
proof (induction lessf data i b rule: partial_scan.induct)
  case (1 lessf data i b)
  have lt: "lessf (data ! i) (data ! (i - Suc 0)) = (key (data ! i) < key (data ! (i - Suc 0)))"
    using "1.prems"(1) by (rule keyedD)
  show ?case
  proof (cases "i < b \<and> \<not> lessf (data ! i) (data ! (i - 1))")
    case True
    then have eq: "partial_scan lessf data i b = partial_scan lessf data (i + 1) b"
      by (subst partial_scan.simps) simp
    have IH: "i + 1 \<le> partial_scan lessf data (i + 1) b \<and>
       (i + 1 \<le> b \<longrightarrow> partial_scan lessf data (i + 1) b \<le> b) \<and>
       (\<forall>k. i + 1 \<le> k \<and> k < partial_scan lessf data (i + 1) b \<longrightarrow>
          key (data ! (k - 1)) \<le> key (data ! k)) \<and>
       (partial_scan lessf data (i + 1) b < b \<longrightarrow>
          key (data ! partial_scan lessf data (i + 1) b)
            < key (data ! (partial_scan lessf data (i + 1) b - 1)))"
      using "1.IH" [OF True "1.prems"] .
    have "key (data ! (k - 1)) \<le> key (data ! k)"
      if "i \<le> k" "k < partial_scan lessf data (i + 1) b" for k
    proof (cases "k = i")
      case True
      then show ?thesis using \<open>i < b \<and> \<not> lessf (data ! i) (data ! (i - 1))\<close> by (auto simp: lt)
    next
      case False
      then show ?thesis using that IH by auto
    qed
    then show ?thesis
      unfolding eq using IH True by auto
  next
    case False
    then have "partial_scan lessf data i b = i"
      by (subst partial_scan.simps) auto
    then show ?thesis using False by (auto simp: lt)
  qed
qed

lemma shift_right_perm:
  "i < j \<Longrightarrow> b \<le> length data \<Longrightarrow> permuted_on i b data (shift_right lessf data j b)"
proof (induction lessf data j b rule: shift_right.induct)
  case (1 lessf data j b)
  show ?case
  proof (cases "j < b \<and> lessf (data ! j) (data ! (j - 1))")
    case True
    let ?d = "swap data j (j - 1)"
    have "shift_right lessf data j b = shift_right lessf ?d (j + 1) b"
      using True by (subst shift_right.simps) simp
    moreover have "permuted_on i b data ?d"
      using True "1.prems" by (intro permuted_on_swap) auto
    moreover have "permuted_on i b ?d (shift_right lessf ?d (j + 1) b)"
      using True "1.prems" by (intro "1.IH") auto
    ultimately show ?thesis by (auto intro: permuted_on_trans)
  next
    case False
    then have "shift_right lessf data j b = data"
      by (subst shift_right.simps) auto
    then show ?thesis by simp
  qed
qed

lemma sorted_on_extend:
  assumes "sorted_on key a i xs" and "a < i"
    and "\<And>k. i \<le> k \<Longrightarrow> k < r \<Longrightarrow> key (xs ! (k - 1)) \<le> key (xs ! k)"
  shows "sorted_on key a r xs"
proof (rule sorted_on_adjacent)
  fix k assume k: "a < k" "k < r"
  show "key (xs ! (k - 1)) \<le> key (xs ! k)"
  proof (cases "k < i")
    case True
    then show ?thesis using assms(1) k unfolding sorted_on_def by auto
  next
    case False
    then show ?thesis using assms(3) [of k] k by simp
  qed
qed

lemma sorted_on_frame:
  "sorted_on key a b xs \<Longrightarrow> permuted_on a' b' xs ys \<Longrightarrow> b \<le> a' \<or> b' \<le> a \<Longrightarrow>
   sorted_on key a b ys"
proof -
  assume s: "sorted_on key a b xs" and p: "permuted_on a' b' xs ys" and d: "b \<le> a' \<or> b' \<le> a"
  have "ys ! k = xs ! k" if "a \<le> k" "k < b" for k
    using that d by (intro permuted_on_outside [OF p]) auto
  then show ?thesis
    using s unfolding sorted_on_def by auto
qed

lemma lower_bound_perm:
  assumes "0 < a \<longrightarrow> (\<forall>k. a \<le> k \<and> k < b \<longrightarrow> key (xs ! (a - 1)) \<le> key (xs ! k))"
    and "permuted_on a b xs ys" and "a \<le> b" and "b \<le> length xs"
  shows "0 < a \<longrightarrow> (\<forall>k. a \<le> k \<and> k < b \<longrightarrow> key (ys ! (a - 1)) \<le> key (ys ! k))"
proof (intro impI allI)
  fix k assume a: "0 < a" and k: "a \<le> k \<and> k < b"
  have "ys ! (a - 1) = xs ! (a - 1)"
    using a by (intro permuted_on_outside [OF assms(2)]) auto
  moreover have "key (xs ! (a - 1)) \<le> key (ys ! k)"
    using assms(1) a k
    by (intro permuted_on_all [OF assms(2-4), where P = "\<lambda>v. key (xs ! (a - 1)) \<le> key v"]) auto
  ultimately show "key (ys ! (a - 1)) \<le> key (ys ! k)" by simp
qed

lemma partial_steps_spec:
  "keyed lessf key \<Longrightarrow> a < i \<Longrightarrow> i \<le> b \<Longrightarrow> b \<le> length data \<Longrightarrow>
   sorted_on key a i data \<Longrightarrow>
   (0 < a \<longrightarrow> (\<forall>k. a \<le> k \<and> k < b \<longrightarrow> key (data ! (a - 1)) \<le> key (data ! k))) \<Longrightarrow>
   partial_steps lessf data a b i n = (d', done) \<Longrightarrow>
   permuted_on a b data d' \<and> (done \<longrightarrow> sorted_on key a b d')"
proof (induction n arbitrary: data i)
  case 0
  then show ?case by simp
next
  case (Suc n)
  note keyed = Suc.prems(1) and ai = Suc.prems(2) and ib = Suc.prems(3) and len = Suc.prems(4)
    and srt = Suc.prems(5) and lb = Suc.prems(6) and res = Suc.prems(7)
  define r where "r = partial_scan lessf data i b"
  have scan: "i \<le> r" "r \<le> b"
    "\<And>k. i \<le> k \<Longrightarrow> k < r \<Longrightarrow> key (data ! (k - 1)) \<le> key (data ! k)"
    "r < b \<Longrightarrow> key (data ! r) < key (data ! (r - 1))"
    using partial_scan_spec [OF keyed, of i data b] ib by (auto simp: r_def)
  have srt_r: "sorted_on key a r data"
    using srt ai scan(3) by (rule sorted_on_extend)
  show ?case
  proof (cases "r = b")
    case True
    then have "d' = data" "done"
      using res by (simp_all add: Let_def r_def [symmetric])
    then show ?thesis using srt_r True by simp
  next
    case False
    then have rb: "r < b" using scan(2) by simp
    show ?thesis
    proof (cases "b - a < 50")
      case True
      then have "d' = data" "\<not> done"
        using res False by (simp_all add: Let_def r_def [symmetric])
      then show ?thesis by simp
    next
      case big: False
      define d1 where "d1 = swap data r (r - 1)"
      define d2 where "d2 = (if r - a \<ge> 2 then shift_left lessf d1 (r - 1) else d1)"
      define d3 where "d3 = (if b - r \<ge> 2 then shift_right lessf d2 (r + 1) b else d2)"
      have rec: "partial_steps lessf d3 a b r n = (d', done)"
        using res False big
        unfolding partial_steps.simps Let_def r_def [symmetric] d3_def d2_def d1_def
        by (simp only: if_False)
      have ar: "a < r" using ai scan(1) by simp
      have nth1: "d1 ! k =
          (if k = r - Suc 0 then data ! r else if k = r then data ! (r - Suc 0) else data ! k)"
        for k
        using rb len ar by (simp add: d1_def swap_nth)
      have p1: "permuted_on a b data d1"
        unfolding d1_def using ar rb len by (intro permuted_on_swap) auto
      have len1: "length d1 = length data"
        by (simp add: d1_def)
      have s2: "sorted_on key a r d2 \<and> permuted_on a r d1 d2"
      proof (cases "r - a \<ge> 2")
        case True
        have inv: "ins_inv key a (r - 1) (r - 1) d1"
          unfolding ins_inv_def
        proof (intro conjI allI impI)
          show "a \<le> r - 1" "r - 1 \<le> r - 1" using ar by auto
          show "r - 1 < length d1" using rb len len1 by simp
        next
          fix p q
          assume "a \<le> p \<and> p < q \<and> q \<le> r - 1 \<and> p \<noteq> r - 1 \<and> q \<noteq> r - 1"
          then have pq: "a \<le> p" "p < q" "q < r - 1" by auto
          then have "key (data ! p) \<le> key (data ! q)"
            using srt_r unfolding sorted_on_def by auto
          then show "key (d1 ! p) \<le> key (d1 ! q)"
            using pq by (auto simp: nth1)
        next
          fix q assume "r - 1 < q \<and> q \<le> r - 1"
          then have False by linarith
          then show "key (d1 ! (r - 1)) < key (d1 ! q)" ..
        qed
        have low: "0 < a \<longrightarrow> key (d1 ! (a - 1)) \<le> key (d1 ! (r - 1))"
          using lb ar rb by (auto simp: nth1)
        have "shift_left lessf d1 (r - 1) = insertion_shift lessf d1 a (r - 1)"
          unfolding shift_left_eq
          using ar rb len len1 low by (intro insertion_shift_lower [OF keyed]) auto
        then have "d2 = insertion_shift lessf d1 a (r - 1)"
          using True by (simp add: d2_def)
        then show ?thesis
          using insertion_shift_spec [OF keyed inv] ar by simp
      next
        case False
        then have "r = a + 1" using ar by simp
        then have "sorted_on key a r d1"
          unfolding sorted_on_def by auto
        then show ?thesis
          using False by (simp add: d2_def)
      qed
      have len2: "length d2 = length data"
        using s2 len1 by (auto dest: permuted_on_length)
      have p3: "permuted_on r b d2 d3"
        unfolding d3_def using rb len len2 by (auto intro!: shift_right_perm)
      have s3: "sorted_on key a r d3"
        using sorted_on_frame [OF conjunct1 [OF s2] p3] by simp
      have p03: "permuted_on a b data d3"
      proof -
        have "permuted_on a b d1 d2"
          using rb by (intro permuted_on_mono [OF conjunct2 [OF s2]]) auto
        moreover have "permuted_on a b d2 d3"
          using ar by (intro permuted_on_mono [OF p3]) auto
        ultimately show ?thesis
          using p1 by (blast intro: permuted_on_trans)
      qed
      have len3: "length d3 = length data"
        using p03 by (rule permuted_on_length)
      have lb3: "0 < a \<longrightarrow> (\<forall>k. a \<le> k \<and> k < b \<longrightarrow> key (d3 ! (a - 1)) \<le> key (d3 ! k))"
      proof (rule lower_bound_perm [OF lb p03])
        show "a \<le> b" using ai ib by simp
        show "b \<le> length data" by (rule len)
      qed
      have "permuted_on a b d3 d' \<and> (done \<longrightarrow> sorted_on key a b d')"
        using ar rb len len3 s3 lb3 rec by (intro Suc.IH [OF keyed]) auto
      then show ?thesis
        using permuted_on_trans [OF p03] by blast
    qed
  qed
qed

lemma partialInsertionSort_func_spec:
  assumes "keyed lessf key" and "a < b" and "b \<le> length data"
    and "0 < a \<longrightarrow> (\<forall>k. a \<le> k \<and> k < b \<longrightarrow> key (data ! (a - 1)) \<le> key (data ! k))"
    and "partialInsertionSort_func lessf data a b = (d', done)"
  shows "permuted_on a b data d' \<and> (done \<longrightarrow> sorted_on key a b d')"
  using assms unfolding partialInsertionSort_func_def
  by (intro partial_steps_spec [where i = "a + 1" and n = 5]) (auto simp: sorted_on_def)

lemma pdqsort_func_main:
  assumes "\<not> b - a \<le> 12" and "limit \<noteq> 0"
    and "pdqsort_choose lessf data a b limit wb = (d1, limit1, pivot, hint)"
    and "(if wb \<and> wp \<and> hint = increasingHint
          then partialInsertionSort_func lessf d1 a b else (d1, False)) = (d2, done)"
  shows "pdqsort_func lessf data a b limit wb wp =
     (if done then d2
      else if a > 0 \<and> \<not> lessf (d2 ! (a - 1)) (d2 ! pivot) then
        (case partitionEqual_func lessf d2 a b pivot of (data, mid) \<Rightarrow>
           pdqsort_func lessf data mid b limit1 wb wp)
      else
        (case partition_func lessf d2 a b pivot of (data, mid, alreadyPartitioned) \<Rightarrow>
           let leftLen = mid - a;
               rightLen = b - mid;
               balanceThreshold = (b - a) div 8 in
           if leftLen < rightLen then
             pdqsort_func lessf (pdqsort_func lessf data a mid limit1 True True)
               (mid + 1) b limit1 (leftLen \<ge> balanceThreshold) alreadyPartitioned
           else
             pdqsort_func lessf (pdqsort_func lessf data (mid + 1) b limit1 True True)
               a mid limit1 (rightLen \<ge> balanceThreshold) alreadyPartitioned))"
  by (subst pdqsort_func.simps) (simp only: assms if_False prod.case)

lemma partition_join:
  assumes mid: "a \<le> mid" "mid < b"
    and left: "\<And>k. a \<le> k \<Longrightarrow> k < mid \<Longrightarrow> key (R ! k) \<le> key (R ! mid)"
    and right: "\<And>k. mid < k \<Longrightarrow> k < b \<Longrightarrow> key (R ! mid) \<le> key (R ! k)"
    and sl: "sorted_on key a mid R" and sr: "sorted_on key (mid + 1) b R"
  shows "sorted_on key a b R"
  unfolding sorted_on_def
proof (intro allI impI)
  fix i j assume ij: "a \<le> i \<and> i < j \<and> j < b"
  consider "j < mid" | "mid < i" | "i < mid" "j = mid" | "i = mid" "mid < j" | "i < mid" "mid < j"
    using ij by linarith
  then show "key (R ! i) \<le> key (R ! j)"
  proof cases
    case 1
    then show ?thesis using sl ij unfolding sorted_on_def by auto
  next
    case 2
    then show ?thesis using sr ij unfolding sorted_on_def by auto
  next
    case 3
    then show ?thesis using left [of i] ij by simp
  next
    case 4
    then show ?thesis using right [of j] ij by simp
  next
    case 5
    have "key (R ! i) \<le> key (R ! mid)" using left [of i] ij 5 by simp
    also have "\<dots> \<le> key (R ! j)" using right [of j] ij 5 by simp
    finally show ?thesis .
  qed
qed

lemma pdqsort_func_spec:
  "keyed lessf key \<Longrightarrow> a \<le> b \<Longrightarrow> b \<le> length data \<Longrightarrow>
   (0 < a \<longrightarrow> (\<forall>k. a \<le> k \<and> k < b \<longrightarrow> key (data ! (a - 1)) \<le> key (data ! k))) \<Longrightarrow>
   sorted_on key a b (pdqsort_func lessf data a b limit wb wp) \<and>
   permuted_on a b data (pdqsort_func lessf data a b limit wb wp)"
proof (induction "b - a" arbitrary: data a b limit wb wp rule: less_induct)
  case less
  note keyed = less.prems(1) and ab = less.prems(2) and len = less.prems(3) and lb = less.prems(4)
  note IH = less.hyps [OF _ keyed]
  consider (ins) "b - a \<le> 12" | (heap) "\<not> b - a \<le> 12" "limit = 0"
    | (main) "\<not> b - a \<le> 12" "limit \<noteq> 0"
    by blast
  then show ?case
  proof cases
    case ins
    then have "pdqsort_func lessf data a b limit wb wp = insertionSort_func lessf data a b"
      by (subst pdqsort_func.simps) simp
    then show ?thesis
      using insertionSort_func_spec [OF keyed len, of a] by simp
  next
    case heap
    then have "pdqsort_func lessf data a b limit wb wp = heapSort_func lessf data a b"
      by (subst pdqsort_func.simps) simp
    then show ?thesis
      using heapSort_func_spec [OF keyed ab len] by simp
  next
    case main
    obtain d1 limit1 pivot hint where
      ch: "pdqsort_choose lessf data a b limit wb = (d1, limit1, pivot, hint)"
      using prod_cases4 by blast
    have big: "12 < b - a" using main(1) by simp
    have p01: "permuted_on a b data d1" and piv: "a \<le> pivot" "pivot < b"
      using pdqsort_choose_spec [OF ch big len] by auto
    have len1: "length d1 = length data" using p01 by (rule permuted_on_length)
    have lb1: "0 < a \<longrightarrow> (\<forall>k. a \<le> k \<and> k < b \<longrightarrow> key (d1 ! (a - 1)) \<le> key (d1 ! k))"
      by (rule lower_bound_perm [OF lb p01 ab len])
    obtain d2 dn where
      pis: "(if wb \<and> wp \<and> hint = increasingHint
             then partialInsertionSort_func lessf d1 a b else (d1, False)) = (d2, dn)"
      using prod.exhaust by blast
    have s2: "permuted_on a b d1 d2 \<and> (dn \<longrightarrow> sorted_on key a b d2)"
    proof (cases "wb \<and> wp \<and> hint = increasingHint")
      case True
      then have "partialInsertionSort_func lessf d1 a b = (d2, dn)"
        using pis by simp
      then show ?thesis
        using big len len1 lb1 by (intro partialInsertionSort_func_spec [OF keyed]) auto
    next
      case False
      then show ?thesis using pis by auto
    qed
    have p02: "permuted_on a b data d2"
      using permuted_on_trans [OF p01] s2 by blast
    have len2: "length d2 = length data" using p02 by (rule permuted_on_length)
    have lb2: "0 < a \<longrightarrow> (\<forall>k. a \<le> k \<and> k < b \<longrightarrow> key (d2 ! (a - 1)) \<le> key (d2 ! k))"
      by (rule lower_bound_perm [OF lb p02 ab len])
    note unfold = pdqsort_func_main [OF main ch pis]
    show ?thesis
    proof (cases dn)
      case True
      then show ?thesis using unfold s2 p02 by simp
    next
      case notdone: False
      show ?thesis
      proof (cases "a > 0 \<and> \<not> lessf (d2 ! (a - 1)) (d2 ! pivot)")
        case True
        obtain d3 mid where pe: "partitionEqual_func lessf d2 a b pivot = (d3, mid)"
          by fastforce
        have res: "pdqsort_func lessf data a b limit wb wp = pdqsort_func lessf d3 mid b limit1 wb wp"
          using unfold notdone True by (simp add: pe)
        have "lessf (d2 ! (a - 1)) (d2 ! pivot) = (key (d2 ! (a - 1)) < key (d2 ! pivot))"
          using keyed by (rule keyedD)
        then have low: "key (d2 ! pivot) \<le> key (d2 ! (a - 1))"
          using True by auto
        have spec: "permuted_on a b d2 d3" "a < mid" "mid \<le> b"
          "\<And>k. a \<le> k \<Longrightarrow> k < mid \<Longrightarrow> key (d3 ! k) \<le> key (d2 ! pivot)"
          "\<And>k. mid \<le> k \<Longrightarrow> k < b \<Longrightarrow> key (d2 ! pivot) < key (d3 ! k)"
          using partitionEqual_func_spec [OF keyed piv _ pe] len len2 by auto
        have len3: "length d3 = length data"
          using permuted_on_length [OF spec(1)] len2 by simp
        have minimal: "key (d2 ! pivot) \<le> key (d3 ! k)" if "a \<le> k" "k < b" for k
        proof -
          have "key (d2 ! (a - 1)) \<le> key (d3 ! k)"
            using that lb2 True len len2 ab
            by (intro permuted_on_all [OF spec(1), where P = "\<lambda>v. key (d2 ! (a - 1)) \<le> key v"])
              auto
          then show ?thesis using low by simp
        qed
        let ?R = "pdqsort_func lessf d3 mid b limit1 wb wp"
        have lb3: "0 < mid \<longrightarrow> (\<forall>k. mid \<le> k \<and> k < b \<longrightarrow> key (d3 ! (mid - 1)) \<le> key (d3 ! k))"
        proof (intro impI allI)
          fix k assume k: "mid \<le> k \<and> k < b"
          have "key (d3 ! (mid - 1)) \<le> key (d2 ! pivot)"
            using spec(2) by (intro spec(4)) auto
          also have "\<dots> < key (d3 ! k)"
            using k by (intro spec(5)) auto
          finally show "key (d3 ! (mid - 1)) \<le> key (d3 ! k)" by simp
        qed
        have R: "sorted_on key mid b ?R \<and> permuted_on mid b d3 ?R"
          using spec(2,3) ab len len3 lb3 by (intro IH) auto
        then have sR: "sorted_on key mid b ?R" and pR: "permuted_on mid b d3 ?R"
          by auto
        have eqk: "key (?R ! k) = key (d2 ! pivot)" if "a \<le> k" "k < mid" for k
        proof -
          have "?R ! k = d3 ! k"
            using that by (intro permuted_on_outside [OF pR]) auto
          then show ?thesis
            using spec(4) [of k] minimal [of k] that spec(3) by simp
        qed
        have gtk: "key (d2 ! pivot) < key (?R ! k)" if "mid \<le> k" "k < b" for k
          using that spec(3,5) len len3
          by (intro permuted_on_all [OF pR, where P = "\<lambda>v. key (d2 ! pivot) < key v"]) auto
        have "sorted_on key a b ?R"
          unfolding sorted_on_def
        proof (intro allI impI)
          fix i j assume ij: "a \<le> i \<and> i < j \<and> j < b"
          consider "j < mid" | "i < mid" "mid \<le> j" | "mid \<le> i" by linarith
          then show "key (?R ! i) \<le> key (?R ! j)"
          proof cases
            case 1
            then show ?thesis using eqk [of i] eqk [of j] ij by simp
          next
            case 2
            then show ?thesis using eqk [of i] gtk [of j] ij by simp
          next
            case 3
            then show ?thesis using sR ij unfolding sorted_on_def by auto
          qed
        qed
        moreover have "permuted_on a b data ?R"
        proof -
          have "permuted_on a b d3 ?R"
            using spec(2) by (intro permuted_on_mono [OF pR]) auto
          then show ?thesis
            using permuted_on_trans [OF p02 spec(1)] permuted_on_trans by blast
        qed
        ultimately show ?thesis by (simp add: res)
      next
        case False
        obtain d3 mid ap where pf: "partition_func lessf d2 a b pivot = (d3, mid, ap)"
          using prod_cases3 by blast
        have spec: "permuted_on a b d2 d3" "a \<le> mid" "mid < b"
          "\<And>k. a \<le> k \<Longrightarrow> k < mid \<Longrightarrow> key (d3 ! k) < key (d3 ! mid)"
          "\<And>k. mid < k \<Longrightarrow> k < b \<Longrightarrow> key (d3 ! mid) \<le> key (d3 ! k)"
          using partition_func_spec [OF keyed piv _ pf] len len2 by auto
        have p03: "permuted_on a b data d3"
          by (rule permuted_on_trans [OF p02 spec(1)])
        have len3: "length d3 = length data"
          using p03 by (rule permuted_on_length)
        have lb3: "0 < a \<longrightarrow> (\<forall>k. a \<le> k \<and> k < b \<longrightarrow> key (d3 ! (a - 1)) \<le> key (d3 ! k))"
          by (rule lower_bound_perm [OF lb p03 ab len])
        have lbl: "0 < a \<longrightarrow> (\<forall>k. a \<le> k \<and> k < mid \<longrightarrow> key (d3 ! (a - 1)) \<le> key (d3 ! k))"
          using lb3 spec(3) by auto
        show ?thesis
        proof (cases "mid - a < b - mid")
          case True
          define R1 where "R1 = pdqsort_func lessf d3 a mid limit1 True True"
          define R2 where
            "R2 = pdqsort_func lessf R1 (mid + 1) b limit1 (mid - a \<ge> (b - a) div 8) ap"
          have res: "pdqsort_func lessf data a b limit wb wp = R2"
            using unfold unfolding pf prod.case Let_def R2_def R1_def
            by (simp only: notdone False True if_False if_True)
          have R1: "sorted_on key a mid R1 \<and> permuted_on a mid d3 R1"
            unfolding R1_def using spec(2,3) len len3 lbl by (intro IH) auto
          then have s1: "sorted_on key a mid R1" and p1: "permuted_on a mid d3 R1"
            by auto
          have len4: "length R1 = length data"
            using permuted_on_length [OF p1] len3 by simp
          have out1: "R1 ! k = d3 ! k" if "mid \<le> k" for k
            using that by (intro permuted_on_outside [OF p1]) auto
          have lbr: "0 < mid + 1 \<longrightarrow>
              (\<forall>k. mid + 1 \<le> k \<and> k < b \<longrightarrow> key (R1 ! (mid + 1 - 1)) \<le> key (R1 ! k))"
            using spec(5) by (auto simp: out1)
          have R2: "sorted_on key (mid + 1) b R2 \<and> permuted_on (mid + 1) b R1 R2"
            unfolding R2_def using spec(2,3) len len4 lbr by (intro IH) auto
          then have s2': "sorted_on key (mid + 1) b R2" and p2: "permuted_on (mid + 1) b R1 R2"
            by auto
          have out2: "R2 ! k = R1 ! k" if "k \<le> mid" for k
            using that by (intro permuted_on_outside [OF p2]) auto
          have midv: "R2 ! mid = d3 ! mid"
            by (simp add: out2 out1)
          have left: "key (R2 ! k) \<le> key (R2 ! mid)" if "a \<le> k" "k < mid" for k
          proof -
            have "key (R1 ! k) < key (d3 ! mid)"
              using that spec(2,3,4) len len3
              by (intro permuted_on_all [OF p1, where P = "\<lambda>v. key v < key (d3 ! mid)"]) auto
            then show ?thesis using that by (simp add: out2 midv)
          qed
          have right: "key (R2 ! mid) \<le> key (R2 ! k)" if "mid < k" "k < b" for k
          proof -
            have "key (d3 ! mid) \<le> key (R2 ! k)"
              using that spec(3,5) len len4
              by (intro permuted_on_all [OF p2, where P = "\<lambda>v. key (d3 ! mid) \<le> key v"])
                (auto simp: out1)
            then show ?thesis by (simp add: midv)
          qed
          have sl: "sorted_on key a mid R2"
            using sorted_on_frame [OF s1 p2] by simp
          have "sorted_on key a b R2"
            by (rule partition_join [OF spec(2,3) left right sl s2'])
          moreover have "permuted_on a b data R2"
          proof -
            have "permuted_on a b d3 R1"
              using spec(3) by (intro permuted_on_mono [OF p1]) auto
            moreover have "permuted_on a b R1 R2"
              using spec(2) by (intro permuted_on_mono [OF p2]) auto
            ultimately show ?thesis
              using p03 permuted_on_trans by blast
          qed
          ultimately show ?thesis by (simp add: res)
        next
          case right_first: False
          define R1 where "R1 = pdqsort_func lessf d3 (mid + 1) b limit1 True True"
          define R2 where
            "R2 = pdqsort_func lessf R1 a mid limit1 (b - mid \<ge> (b - a) div 8) ap"
          have res: "pdqsort_func lessf data a b limit wb wp = R2"
            using unfold unfolding pf prod.case Let_def R2_def R1_def
            by (simp only: notdone False right_first if_False if_True)
          have lbr: "0 < mid + 1 \<longrightarrow>
              (\<forall>k. mid + 1 \<le> k \<and> k < b \<longrightarrow> key (d3 ! (mid + 1 - 1)) \<le> key (d3 ! k))"
            using spec(5) by auto
          have R1: "sorted_on key (mid + 1) b R1 \<and> permuted_on (mid + 1) b d3 R1"
            unfolding R1_def using spec(2,3) len len3 lbr by (intro IH) auto
          then have s1: "sorted_on key (mid + 1) b R1" and p1: "permuted_on (mid + 1) b d3 R1"
            by auto
          have len4: "length R1 = length data"
            using permuted_on_length [OF p1] len3 by simp
          have out1: "R1 ! k = d3 ! k" if "k \<le> mid" for k
            using that by (intro permuted_on_outside [OF p1]) auto
          have lbl': "0 < a \<longrightarrow> (\<forall>k. a \<le> k \<and> k < mid \<longrightarrow> key (R1 ! (a - 1)) \<le> key (R1 ! k))"
            using lbl spec(2) by (auto simp: out1)
          have R2: "sorted_on key a mid R2 \<and> permuted_on a mid R1 R2"
            unfolding R2_def using spec(2,3) len len4 lbl' by (intro IH) auto
          then have s2': "sorted_on key a mid R2" and p2: "permuted_on a mid R1 R2"
            by auto
          have out2: "R2 ! k = R1 ! k" if "mid \<le> k" for k
            using that by (intro permuted_on_outside [OF p2]) auto
          have midv: "R2 ! mid = d3 ! mid"
            by (simp add: out2 out1)
          have left: "key (R2 ! k) \<le> key (R2 ! mid)" if "a \<le> k" "k < mid" for k
          proof -
            have "key (R2 ! k) < key (d3 ! mid)"
              using that spec(2,3,4) len len4
              by (intro permuted_on_all [OF p2, where P = "\<lambda>v. key v < key (d3 ! mid)"])
                (auto simp: out1)
            then show ?thesis by (simp add: midv)
          qed
          have right: "key (R2 ! mid) \<le> key (R2 ! k)" if "mid < k" "k < b" for k
          proof -
            have "key (d3 ! mid) \<le> key (R1 ! k)"
              using that spec(3,5) len len3
              by (intro permuted_on_all [OF p1, where P = "\<lambda>v. key (d3 ! mid) \<le> key v"]) auto
            then show ?thesis using that by (simp add: out2 midv)
          qed
          have sr: "sorted_on key (mid + 1) b R2"
            using sorted_on_frame [OF s1 p2] by simp
          have "sorted_on key a b R2"
            by (rule partition_join [OF spec(2,3) left right s2' sr])
          moreover have "permuted_on a b data R2"
          proof -
            have "permuted_on a b d3 R1"
              using spec(2) by (intro permuted_on_mono [OF p1]) auto
            moreover have "permuted_on a b R1 R2"
              using spec(3) by (intro permuted_on_mono [OF p2]) auto
            ultimately show ?thesis
              using p03 permuted_on_trans by blast
          qed
          ultimately show ?thesis by (simp add: res)
        qed
      qed
    qed
  qed
qed

lemma Slice_spec:
  assumes "keyed lessf key"
  shows "sorted (map key (Slice lessf x)) \<and> mset (Slice lessf x) = mset x"
proof -
  let ?r = "pdqsort_func lessf x 0 (length x) (bits_Len (length x)) True True"
  have "sorted_on key 0 (length x) ?r \<and> permuted_on 0 (length x) x ?r"
    using assms by (intro pdqsort_func_spec) auto
  then have "sorted_on key 0 (length ?r) ?r" "mset ?r = mset x"
    by (auto simp: permuted_on_def)
  then show ?thesis
    by (simp add: Slice_def Let_def sorted_on_whole)
qed

lemma insertion_loop_sorted:
  "keyed lessf key \<Longrightarrow> sorted_on key a b data \<Longrightarrow> a < i \<Longrightarrow>
   insertion_loop lessf data a b i = data"
proof (induction lessf data a b i rule: insertion_loop.induct)
  case (1 lessf data a b i)
  show ?case
  proof (cases "i < b")
    case True
    have "lessf (data ! i) (data ! (i - 1)) = (key (data ! i) < key (data ! (i - 1)))"
      using "1.prems"(1) by (rule keyedD)
    moreover have "key (data ! (i - 1)) \<le> key (data ! i)"
      using "1.prems"(2,3) True unfolding sorted_on_def by auto
    ultimately have "\<not> (i > a \<and> lessf (data ! i) (data ! (i - 1)))"
      by auto
    then have shift: "insertion_shift lessf data a i = data"
      by (subst insertion_shift.simps) auto
    have "insertion_loop lessf data a b i = insertion_loop lessf data a b (i + 1)"
      using True by (subst insertion_loop.simps) (simp add: shift)
    also have "\<dots> = data"
      using "1.IH" [OF True] "1.prems" by (simp add: shift)
    finally show ?thesis .
  next
    case False
    then show ?thesis by (subst insertion_loop.simps) simp
  qed
qed

lemma partial_scan_sorted:
  assumes "keyed lessf key" and "sorted_on key a b data" and "a < i" and "i \<le> b"
  shows "partial_scan lessf data i b = b"
proof -
  let ?r = "partial_scan lessf data i b"
  have r: "i \<le> ?r" "?r \<le> b" "?r < b \<longrightarrow> key (data ! ?r) < key (data ! (?r - 1))"
    using partial_scan_spec [OF assms(1), of i data b] assms(4) by auto
  have "\<not> ?r < b"
  proof
    assume lt: "?r < b"
    then have "key (data ! (?r - 1)) \<le> key (data ! ?r)"
      using assms(2,3) r(1) unfolding sorted_on_def by auto
    then show False using r(3) lt by auto
  qed
  then show ?thesis using r(2) by simp
qed

lemma partialInsertionSort_func_sorted:
  assumes "keyed lessf key" and "sorted_on key a b data" and "a < b"
  shows "partialInsertionSort_func lessf data a b = (data, True)"
proof -
  have "partial_scan lessf data (a + 1) b = b"
    using assms by (intro partial_scan_sorted [where a = a and key = key]) auto
  then show ?thesis
    by (simp add: partialInsertionSort_func_def numeral_eq_Suc Let_def)
qed

lemma order2_func_sorted:
  assumes "keyed lessf key" and "sorted_on key a b data" and "a \<le> x" and "x < y" and "y < b"
  shows "order2_func lessf data x y s = (x, y, s)"
proof -
  have "lessf (data ! y) (data ! x) = (key (data ! y) < key (data ! x))"
    using assms(1) by (rule keyedD)
  moreover have "key (data ! x) \<le> key (data ! y)"
    using assms(2-5) unfolding sorted_on_def by auto
  ultimately show ?thesis
    by (auto simp: order2_func_def)
qed

lemma median_func_sorted:
  assumes "keyed lessf key" and "sorted_on key a b data"
    and "a \<le> x" and "x < y" and "y < z" and "z < b"
  shows "median_func lessf data x y z s = (y, s)"
proof -
  have "order2_func lessf data x y s = (x, y, s)"
    using assms by (intro order2_func_sorted [where a = a and b = b and key = key]) auto
  moreover have "order2_func lessf data y z s = (y, z, s)"
    using assms by (intro order2_func_sorted [where a = a and b = b and key = key]) auto
  ultimately show ?thesis
    by (simp add: median_func_def)
qed

lemma choosePivot_func_sorted:
  assumes "keyed lessf key" and "sorted_on key a b data" and "12 < b - a"
  shows "choosePivot_func lessf data a b = (a + (b - a) div 4 * 2, increasingHint)"
proof -
  let ?l = "b - a"
  let ?i = "a + ?l div 4 * 1"
  let ?j = "a + ?l div 4 * 2"
  let ?k = "a + ?l div 4 * 3"
  have q: "3 \<le> ?l div 4" "?l div 4 * 3 + 2 \<le> ?l"
    using assms(3) by auto
  have bnd: "a \<le> ?i - 1" "?i - 1 < ?i" "?i + 1 < ?j" "?j - 1 < ?j" "?j + 1 < ?k" "?k - 1 < ?k"
    "?k + 1 < b" "?i < ?j" "?j < ?k" "a \<le> ?i" "?i < ?i + 1" "?j < ?j + 1" "?k < ?k + 1"
    "a \<le> ?j - 1" "a \<le> ?k - 1" "?k < b"
    using q by simp_all
  have mi: "medianAdjacent_func lessf data ?i s = (?i, s)" for s
    unfolding medianAdjacent_func_def
    using bnd by (intro median_func_sorted [OF assms(1,2)]) linarith+
  have mj: "medianAdjacent_func lessf data ?j s = (?j, s)" for s
    unfolding medianAdjacent_func_def
    using bnd by (intro median_func_sorted [OF assms(1,2)]) linarith+
  have mk: "medianAdjacent_func lessf data ?k s = (?k, s)" for s
    unfolding medianAdjacent_func_def
    using bnd by (intro median_func_sorted [OF assms(1,2)]) linarith+
  have adj: "(if ?l \<ge> 50 then
             (case medianAdjacent_func lessf data ?i 0 of (i, swaps) \<Rightarrow>
              case medianAdjacent_func lessf data ?j swaps of (j, swaps) \<Rightarrow>
              case medianAdjacent_func lessf data ?k swaps of (k, swaps) \<Rightarrow>
                (i, j, k, swaps))
           else (?i, ?j, ?k, 0)) = (?i, ?j, ?k, 0)"
    by (simp only: mi mj mk prod.case if_cancel)
  have med: "median_func lessf data ?i ?j ?k 0 = (?j, 0)"
    using bnd by (intro median_func_sorted [OF assms(1,2)]) linarith+
  have 8: "8 \<le> ?l" using assms(3) by simp
  show ?thesis
    unfolding choosePivot_func_def Let_def adj
    by (simp only: 8 if_True prod.case med refl)
qed

lemma pdqsort_func_sorted:
  assumes "keyed lessf key" and "sorted_on key a b data" and "a \<le> b" and "limit \<noteq> 0"
  shows "pdqsort_func lessf data a b limit True True = data"
proof (cases "b - a \<le> 12")
  case True
  then have "pdqsort_func lessf data a b limit True True = insertionSort_func lessf data a b"
    by (subst pdqsort_func.simps) simp
  also have "\<dots> = data"
    unfolding insertionSort_func_def
    using assms(1,2) by (intro insertion_loop_sorted [where key = key]) auto
  finally show ?thesis .
next
  case False
  then have big: "12 < b - a" by simp
  have ch: "pdqsort_choose lessf data a b limit True =
      (data, limit, a + (b - a) div 4 * 2, increasingHint)"
    by (simp add: pdqsort_choose_def choosePivot_func_sorted [OF assms(1,2) big])
  have pis: "(if True \<and> True \<and> increasingHint = increasingHint
              then partialInsertionSort_func lessf data a b else (data, False)) = (data, True)"
    using partialInsertionSort_func_sorted [OF assms(1,2)] big by simp
  show ?thesis
    using pdqsort_func_main [OF False assms(4) ch pis] by simp
qed

lemma Slice_sorted:
  assumes "keyed lessf key" and "sorted (map key x)"
  shows "Slice lessf x = x"
proof (cases "x = []")
  case True
  have "pdqsort_func lessf [] 0 0 0 True True = insertionSort_func lessf [] 0 0"
    by (subst pdqsort_func.simps) simp
  also have "\<dots> = []"
    unfolding insertionSort_func_def by (subst insertion_loop.simps) simp
  finally show ?thesis
    using True by (simp add: Slice_def Let_def bits_Len.simps [of 0])
next
  case False
  then have "bits_Len (length x) \<noteq> 0"
    using bits_Len_pos [of "length x"] by simp
  moreover have "sorted_on key 0 (length x) x"
    using assms(2) by (simp add: sorted_on_whole)
  ultimately show ?thesis
    using assms(1) by (simp add: Slice_def Let_def pdqsort_func_sorted [where key = key])
qed

subsection \<open>Stability on short slices\<close>

text \<open>
  On at most 12 elements \<open>pdqsort_func\<close> is \<open>insertionSort_func\<close>, which only ever swaps two
  neighbours of which the right one is less than the left one. Elements with the same key
  therefore keep their order.
\<close>

lemma swap_adjacent:
  assumes "Suc j < length xs"
  shows "swap xs (Suc j) j = take j xs @ xs ! Suc j # xs ! j # drop (Suc (Suc j)) xs"
proof (rule nth_equalityI)
  show "length (swap xs (Suc j) j) = length (take j xs @ xs ! Suc j # xs ! j # drop (Suc (Suc j)) xs)"
    using assms by simp
next
  fix i assume "i < length (swap xs (Suc j) j)"
  then have i: "i < length xs" by simp
  consider "i < j" | "i = j" | "i = Suc j" | "i > Suc j" by linarith
  then show "swap xs (Suc j) j ! i = (take j xs @ xs ! Suc j # xs ! j # drop (Suc (Suc j)) xs) ! i"
  proof cases
    case 1 then show ?thesis using assms by (simp add: swap_nth nth_append)
  next
    case 2 then show ?thesis using assms by (simp add: swap_nth nth_append)
  next
    case 3 then show ?thesis using assms by (simp add: swap_nth nth_append)
  next
    case 4
    then obtain d where d: "i = Suc (Suc j) + d" by (metis Suc_leI le_Suc_ex)
    show ?thesis using assms i 4 unfolding d
      by (simp add: swap_nth nth_append)
  qed
qed

lemma same_adjacent:
  assumes "Suc j < length xs"
  shows "xs = take j xs @ xs ! j # xs ! Suc j # drop (Suc (Suc j)) xs"
  using assms by (metis Cons_nth_drop_Suc Suc_lessD append_take_drop_id)

lemma filter_swap_adjacent:
  assumes "Suc j < length xs" and "\<not> (P (xs ! j) \<and> P (xs ! Suc j))"
  shows "filter P (swap xs (Suc j) j) = filter P xs"
proof -
  have "filter P (swap xs (Suc j) j) =
        filter P (take j xs) @ filter P [xs ! Suc j, xs ! j] @ filter P (drop (Suc (Suc j)) xs)"
    unfolding swap_adjacent [OF assms(1)] by simp
  also have "filter P [xs ! Suc j, xs ! j] = filter P [xs ! j, xs ! Suc j]"
    using assms(2) by auto
  also have "filter P (take j xs) @ filter P [xs ! j, xs ! Suc j] @ filter P (drop (Suc (Suc j)) xs)
             = filter P (take j xs @ xs ! j # xs ! Suc j # drop (Suc (Suc j)) xs)"
    by simp
  also have "\<dots> = filter P xs"
    using same_adjacent [OF assms(1)] by simp
  finally show ?thesis .
qed

lemma length_insertion_shift: "length (insertion_shift lessf data a j) = length data"
proof (induction lessf data a j rule: insertion_shift.induct)
  case (1 lessf data a j)
  show ?case
    using 1 by (subst insertion_shift.simps) simp
qed

lemma insertion_shift_stable:
  "keyed lessf key \<Longrightarrow> j < length data \<Longrightarrow>
   filter (\<lambda>x. key x = k) (insertion_shift lessf data a j) = filter (\<lambda>x. key x = k) data"
proof (induction lessf data a j rule: insertion_shift.induct)
  case (1 lessf data a j)
  show ?case
  proof (cases "j > a \<and> lessf (data ! j) (data ! (j - 1))")
    case True
    then obtain i where j: "j = Suc i" by (cases j) auto
    have "key (data ! Suc i) < key (data ! i)"
      using True keyedD [OF "1.prems"(1), of "data ! j" "data ! (j - 1)"] by (simp add: j)
    then have "filter (\<lambda>x. key x = k) (swap data (Suc i) i) = filter (\<lambda>x. key x = k) data"
      using "1.prems"(2) by (intro filter_swap_adjacent) (auto simp: j)
    moreover have "insertion_shift lessf data a j = insertion_shift lessf (swap data j (j - 1)) a (j - 1)"
      using True by (subst insertion_shift.simps) simp
    ultimately show ?thesis
      using "1.IH" [OF True "1.prems"(1)] "1.prems"(2) by (simp add: j)
  next
    case False
    then have "insertion_shift lessf data a j = data"
      by (subst insertion_shift.simps) auto
    then show ?thesis by simp
  qed
qed

lemma insertion_loop_stable:
  "keyed lessf key \<Longrightarrow> b \<le> length data \<Longrightarrow>
   filter (\<lambda>x. key x = k) (insertion_loop lessf data a b i) = filter (\<lambda>x. key x = k) data"
proof (induction lessf data a b i rule: insertion_loop.induct)
  case (1 lessf data a b i)
  show ?case
  proof (cases "i < b")
    case True
    have "insertion_loop lessf data a b i =
          insertion_loop lessf (insertion_shift lessf data a i) a b (i + 1)"
      using True by (subst insertion_loop.simps) simp
    then show ?thesis
      using "1.IH" [OF True "1.prems"(1)] "1.prems" True
      by (simp add: insertion_shift_stable length_insertion_shift)
  next
    case False
    then have "insertion_loop lessf data a b i = data"
      by (subst insertion_loop.simps) simp
    then show ?thesis by simp
  qed
qed

lemma Slice_stable_small:
  assumes "keyed lessf key" and "length x \<le> 12"
  shows "filter (\<lambda>r. key r = k) (Slice lessf x) = filter (\<lambda>r. key r = k) x"
proof -
  have "Slice lessf x = insertionSort_func lessf x 0 (length x)"
    unfolding Slice_def using assms(2) by (subst pdqsort_func.simps) simp
  then show ?thesis
    using insertion_loop_stable [OF assms(1), of "length x" x k 0 "0 + 1"]
    by (simp add: insertionSort_func_def)
qed

subsection \<open>The comparator of Print\<close>

lemma keyed_status_less: "keyed status_less status_key"
  by (simp add: keyed_def status_less_def status_key_def less_desc_def)

lemma sorted_status_key: "sorted (map status_key rows) \<longleftrightarrow> descending rows"
  by (simp add: sorted_map descending_def status_key_def less_eq_desc_def)

lemma Slice_rows:
  "descending (Slice status_less rows) \<and> mset (Slice status_less rows) = mset rows"
  using Slice_spec [OF keyed_status_less, of rows] by (simp add: sorted_status_key)

lemma Slice_rows_sorted: "descending rows \<Longrightarrow> Slice status_less rows = rows"
  using Slice_sorted [OF keyed_status_less, of rows] by (simp add: sorted_status_key)

lemma Slice_rows_stable:
  "length rows \<le> 12 \<Longrightarrow>
   rows_with_status label (Slice status_less rows) = rows_with_status label rows"
  using Slice_stable_small [OF keyed_status_less, of rows "Desc label"]
  by (simp add: rows_with_status_def status_key_def)

lemma print_rows_append: "print_rows rows w = w @ print_rows rows []"
proof (induction rows arbitrary: w)
  case Nil
  then show ?case by simp
next
  case (Cons row rows)
  have "print_rows (row # rows) w = print_rows rows (Fprintln w (Join row ''|''))"
    by simp
  also have "\<dots> = Fprintln w (Join row ''|'') @ print_rows rows []"
    by (rule Cons.IH)
  also have "\<dots> = w @ Fprintln [] (Join row ''|'') @ print_rows rows []"
    by (simp add: Fprintln_def)
  also have "\<dots> = w @ print_rows rows (Fprintln [] (Join row ''|''))"
    using Cons.IH [of "Fprintln [] (Join row ''|'')"] by simp
  finally show ?case by simp
qed

lemma print_rows_lines:
  "print_rows rows w = w @ concat (map (\<lambda>row. Join row ''|'' @ newline) rows)"
  by (induction rows arbitrary: w) (simp_all add: Fprintln_def)

lemma print_header_append: "print_header r w = w @ print_header r []"
  by (simp add: print_header_def Let_def Fprintln_def)

section \<open>What Print does to the rows\<close>

lemma Print_reorder_names:
  "case_names (Rows (Table (report_of scenario_C))) = [''boot'', ''login'', ''get'', ''put''] \<and>
   case_names (rows_after_Print (report_of scenario_C)) = [''login'', ''put'', ''boot'', ''get'']"
proof -
  have "case_names (Rows (Table (report_of scenario_C))) = [''boot'', ''login'', ''get'', ''put'']"
    by code_simp
  moreover have
    "case_names (rows_after_Print (report_of scenario_C)) = [''login'', ''put'', ''boot'', ''get'']"
    by code_simp
  ultimately show ?thesis by simp
qed

text \<open>
  C2 as stated fails. The report of \<open>scenario_C\<close> holds its rows in document order; after
  \<open>Print\<close> the same report holds the two failed rows first.
\<close>

theorem Print_reorders_rows_counterexample:
  "build_report scenario_C = Inr (report_of scenario_C) \<and>
   case_names (Rows (Table (report_of scenario_C))) = [''boot'', ''login'', ''get'', ''put''] \<and>
   case_names (rows_after_Print (report_of scenario_C)) = [''login'', ''put'', ''boot'', ''get'']"
  using Print_reorder_names by (simp add: build_report_report_of)

text \<open>
  C3 as stated fails on stability. The passed rows of \<open>thirteen_cases\<close> are aggregated in
  the order \<open>c00\<close> to \<open>c11\<close>; \<open>Print\<close> leaves them in another order.
\<close>

theorem unstable_sort_counterexample:
  "build_report thirteen_cases = Inr (report_of thirteen_cases) \<and>
   case_names (rows_with_status Passed (Rows (Table (report_of thirteen_cases)))) =
     [''c00'', ''c01'', ''c02'', ''c03'', ''c04'', ''c05'', ''c06'', ''c07'', ''c08'', ''c09'',
      ''c10'', ''c11''] \<and>
   case_names (rows_with_status Passed (rows_after_Print (report_of thirteen_cases))) =
     [''c06'', ''c02'', ''c03'', ''c04'', ''c05'', ''c00'', ''c07'', ''c08'', ''c09'', ''c10'',
      ''c11'', ''c01'']"
proof -
  have "case_names (rows_with_status Passed (Rows (Table (report_of thirteen_cases)))) =
     [''c00'', ''c01'', ''c02'', ''c03'', ''c04'', ''c05'', ''c06'', ''c07'', ''c08'', ''c09'',
      ''c10'', ''c11'']"
    by code_simp
  moreover have
    "case_names (rows_with_status Passed (rows_after_Print (report_of thirteen_cases))) =
     [''c06'', ''c02'', ''c03'', ''c04'', ''c05'', ''c00'', ''c07'', ''c08'', ''c09'', ''c10'',
      ''c11'', ''c01'']"
    by code_simp
  ultimately show ?thesis
    by (simp add: build_report_report_of)
qed


lemma Print_Inr:
  assumes "Print r w = (Inr r', w')"
  shows "\<not> sort_panics (Rows (Table r))"
    and "r' = r\<lparr>Table := (Table r)\<lparr>Rows := Slice status_less (Rows (Table r))\<rparr>\<rparr>"
    and "w' = print_rows (Rows (Table r')) (print_header r w)"
proof -
  show np: "\<not> sort_panics (Rows (Table r))"
    using assms by (auto simp: Print_def Let_def split: if_splits)
  show r': "r' = r\<lparr>Table := (Table r)\<lparr>Rows := Slice status_less (Rows (Table r))\<rparr>\<rparr>"
    using assms Print_ok [OF np, of w] by simp
  show "w' = print_rows (Rows (Table r')) (print_header r w)"
    using assms Print_ok [OF np, of w] by (simp add: r')
qed

lemma sort_panics_mset: "mset rows' = mset rows \<Longrightarrow> sort_panics rows' = sort_panics rows"
  unfolding sort_panics_def by (metis mset_eq_setD size_mset)

lemma print_header_Rows:
  "print_header (r\<lparr>Table := (Table r)\<lparr>Rows := rows\<rparr>\<rparr>) w = print_header r w"
  by (simp add: print_header_def)

lemma Passed_less_Failed: "Passed < Failed"
  unfolding Failed_def Passed_def by code_simp

lemma descending_blocks:
  assumes "descending rows" and "i \<le> j" and "j \<le> k" and "k < length rows"
    and "last (rows ! i) = last (rows ! k)"
  shows "last (rows ! j) = last (rows ! i)"
proof -
  have le: "last (rows ! y) \<le> last (rows ! x)" if "x \<le> y" "y < length rows" for x y
    using assms(1) that unfolding descending_def
    by (cases "x = y") (auto simp: sorted_wrt_iff_nth_less)
  have "last (rows ! j) \<le> last (rows ! i)"
    using assms by (intro le) auto
  moreover have "last (rows ! k) \<le> last (rows ! j)"
    using assms by (intro le) auto
  ultimately show ?thesis
    using assms(5) by simp
qed

text \<open>
  C2 (as amended). \<open>Print\<close> leaves the time, the timestamp, the three aggregates, the
  headers and the separator of the report as they were, but it sorts the rows of the
  report in place: afterwards the report holds the same rows in descending order of the
  last field. The row sequence is the same before and after exactly when it was in that
  order already.
\<close>

theorem Print_sorts_rows_in_place:
  assumes "Print r w = (Inr r', w')"
  shows "Time r' = Time r \<and> Timestamp r' = Timestamp r \<and> OK r' = OK r \<and>
         Failures r' = Failures r \<and> Passes r' = Passes r \<and>
         Headers (Table r') = Headers (Table r) \<and> Separator (Table r') = Separator (Table r) \<and>
         mset (Rows (Table r')) = mset (Rows (Table r)) \<and>
         descending (Rows (Table r')) \<and>
         (Rows (Table r') = Rows (Table r) \<longleftrightarrow> descending (Rows (Table r)))"
proof -
  note r' = Print_Inr(2) [OF assms]
  have rows: "Rows (Table r') = Slice status_less (Rows (Table r))"
    by (simp add: r')
  have "Rows (Table r') = Rows (Table r) \<longleftrightarrow> descending (Rows (Table r))"
    using Slice_rows [of "Rows (Table r)"] Slice_rows_sorted [of "Rows (Table r)"]
    by (auto simp: rows)
  then show ?thesis
    using Slice_rows [of "Rows (Table r)"] by (simp add: r')
qed

theorem Print_sorts_rows_in_place_witness:
  "mset (rows_after_Print (report_of scenario_C)) = mset (Rows (Table (report_of scenario_C))) \<and>
   descending (rows_after_Print (report_of scenario_C)) \<and>
   \<not> descending (Rows (Table (report_of scenario_C)))"
proof -
  let ?r = "report_of scenario_C"
  let ?r' = "?r\<lparr>Table := (Table ?r)\<lparr>Rows := Slice status_less (Rows (Table ?r))\<rparr>\<rparr>"
  have np: "\<not> sort_panics (Rows (Table ?r))"
    by (simp add: Rows_report_of document_rows_no_panic)
  have after: "rows_after_Print ?r = Rows (Table ?r')"
    by (simp add: rows_after_Print_def Print_ok [OF np])
  have "case_names (Rows (Table ?r)) \<noteq> case_names (rows_after_Print ?r)"
    using Print_reorder_names by simp
  then have "Rows (Table ?r') \<noteq> Rows (Table ?r)"
    unfolding after by metis
  then show ?thesis
    using Print_sorts_rows_in_place [OF Print_ok [OF np, of "[]"]] unfolding after by blast
qed

text \<open>
  C3 (as amended). What \<open>Print\<close> writes is the header lines followed by one line per
  row, the fields of the row joined by \<open>|\<close>, and nothing else. The lines are those of the
  rows of the report in descending order of the last field, each written once: rows of one
  status form one contiguous block, the failed rows before the passed rows. When the report has at most
  12 rows, the rows of one status keep the order in which they were aggregated; on longer
  reports the order within a block is the one that \<open>sort.Slice\<close> leaves, which is not the
  aggregation order in general.
\<close>

theorem Print_rows_grouped:
  assumes "Print r w = (Inr r', w')"
  shows "w' = w @ print_header r []
                @ concat (map (\<lambda>row. Join row ''|'' @ newline) (Rows (Table r'))) \<and>
         mset (Rows (Table r')) = mset (Rows (Table r)) \<and>
         sorted_wrt (\<lambda>x y. last y \<le> last x) (Rows (Table r')) \<and>
         (\<forall>i j k. i \<le> j \<and> j \<le> k \<and> k < length (Rows (Table r')) \<and>
            last (Rows (Table r') ! i) = last (Rows (Table r') ! k) \<longrightarrow>
            last (Rows (Table r') ! j) = last (Rows (Table r') ! i)) \<and>
         (\<forall>i j. i < length (Rows (Table r')) \<and> j < length (Rows (Table r')) \<and>
            last (Rows (Table r') ! i) = Failed \<and> last (Rows (Table r') ! j) = Passed \<longrightarrow>
            i < j) \<and>
         (length (Rows (Table r)) \<le> 12 \<longrightarrow>
            (\<forall>label. rows_with_status label (Rows (Table r')) =
                     rows_with_status label (Rows (Table r))))"
proof -
  note r' = Print_Inr(2) [OF assms]
  let ?rows = "Rows (Table r')"
  have rows: "?rows = Slice status_less (Rows (Table r))"
    by (simp add: r')
  have desc: "descending ?rows" and perm: "mset ?rows = mset (Rows (Table r))"
    using Slice_rows [of "Rows (Table r)"] by (simp_all add: rows)
  have blocks: "last (?rows ! j) = last (?rows ! i)"
    if "i \<le> j \<and> j \<le> k \<and> k < length ?rows \<and> last (?rows ! i) = last (?rows ! k)" for i j k
    using that by (intro descending_blocks [OF desc, of i j k]) auto
  have order: "i < j"
    if h: "i < length ?rows \<and> j < length ?rows \<and> last (?rows ! i) = Failed \<and>
          last (?rows ! j) = Passed" for i j
  proof (rule ccontr)
    assume "\<not> i < j"
    then have "j < i \<or> j = i" by auto
    then show False
    proof
      assume "j < i"
      then have "last (?rows ! i) \<le> last (?rows ! j)"
        using desc h sorted_wrt_nth_less [of "\<lambda>x y. last y \<le> last x" ?rows j i]
        unfolding descending_def by simp
      then show False using h Passed_less_Failed by simp
    next
      assume "j = i"
      then show False using h Failed_neq_Passed by auto
    qed
  qed
  have stable: "rows_with_status label ?rows = rows_with_status label (Rows (Table r))"
    if "length (Rows (Table r)) \<le> 12" for label
    unfolding rows using that by (rule Slice_rows_stable)
  have "w' = print_header r w @ concat (map (\<lambda>row. Join row ''|'' @ newline) ?rows)"
    unfolding Print_Inr(3) [OF assms] by (rule print_rows_lines)
  also have "print_header r w = w @ print_header r []"
    by (rule print_header_append)
  finally have bytes:
    "w' = w @ print_header r [] @ concat (map (\<lambda>row. Join row ''|'' @ newline) ?rows)"
    by simp
  show ?thesis
    using bytes perm desc blocks order stable
    unfolding descending_def by blast
qed

theorem Print_rows_grouped_witness:
  "snd (Print (report_of scenario_C) []) =
     print_header (report_of scenario_C) []
     @ ''smoke|login|'' @ backtick @ ''0.5'' @ backtick @ ''|'' @ Failed @ newline
     @ ''api|put|'' @ backtick @ ''0.5'' @ backtick @ ''|'' @ Failed @ newline
     @ ''smoke|boot|'' @ backtick @ ''0.5'' @ backtick @ ''|'' @ Passed @ newline
     @ ''api|get|'' @ backtick @ ''0.5'' @ backtick @ ''|'' @ Passed @ newline \<and>
   sorted_wrt (\<lambda>x y. last y \<le> last x) (rows_after_Print (report_of scenario_C)) \<and>
   mset (rows_after_Print (report_of scenario_C)) = mset (Rows (Table (report_of scenario_C))) \<and>
   length (rows_after_Print (report_of scenario_C)) = 4 \<and>
   rows_with_status Passed (rows_after_Print (report_of scenario_C)) =
     rows_with_status Passed (Rows (Table (report_of scenario_C))) \<and>
   rows_with_status Failed (rows_after_Print (report_of scenario_C)) =
     rows_with_status Failed (Rows (Table (report_of scenario_C)))"
proof -
  let ?r = "report_of scenario_C"
  let ?r' = "?r\<lparr>Table := (Table ?r)\<lparr>Rows := Slice status_less (Rows (Table ?r))\<rparr>\<rparr>"
  have np: "\<not> sort_panics (Rows (Table ?r))"
    by (simp add: Rows_report_of document_rows_no_panic)
  have after: "rows_after_Print ?r = Rows (Table ?r')"
    by (simp add: rows_after_Print_def Print_ok [OF np])
  have four: "length (Rows (Table ?r)) = 4"
    by (simp add: Rows_report_of length_document_rows case_count_def scenario_C_def)
  have b: "print_rows (Slice status_less (Rows (Table ?r))) (print_header ?r []) =
        [] @ print_header ?r []
        @ concat (map (\<lambda>row. Join row ''|'' @ newline) (Rows (Table ?r')))"
    and m: "mset (Rows (Table ?r')) = mset (Rows (Table ?r))"
    and s: "sorted_wrt (\<lambda>x y. last y \<le> last x) (Rows (Table ?r'))"
    and st: "length (Rows (Table ?r)) \<le> 12 \<longrightarrow>
      (\<forall>label. rows_with_status label (Rows (Table ?r')) =
               rows_with_status label (Rows (Table ?r)))"
    using Print_rows_grouped [OF Print_ok [OF np, of "[]"]] by blast+
  have lines: "concat (map (\<lambda>row. Join row ''|'' @ newline) (rows_after_Print ?r)) =
      ''smoke|login|'' @ backtick @ ''0.5'' @ backtick @ ''|'' @ Failed @ newline
      @ ''api|put|'' @ backtick @ ''0.5'' @ backtick @ ''|'' @ Failed @ newline
      @ ''smoke|boot|'' @ backtick @ ''0.5'' @ backtick @ ''|'' @ Passed @ newline
      @ ''api|get|'' @ backtick @ ''0.5'' @ backtick @ ''|'' @ Passed @ newline"
    by code_simp
  have out: "snd (Print ?r []) =
      print_header ?r []
      @ ''smoke|login|'' @ backtick @ ''0.5'' @ backtick @ ''|'' @ Failed @ newline
      @ ''api|put|'' @ backtick @ ''0.5'' @ backtick @ ''|'' @ Failed @ newline
      @ ''smoke|boot|'' @ backtick @ ''0.5'' @ backtick @ ''|'' @ Passed @ newline
      @ ''api|get|'' @ backtick @ ''0.5'' @ backtick @ ''|'' @ Passed @ newline"
    unfolding Print_ok [OF np, of "[]"] snd_conv b lines [unfolded after] by simp
  have "length (Rows (Table ?r')) = length (Rows (Table ?r))"
    using m by (rule mset_eq_length)
  then have "length (Rows (Table ?r')) = 4"
    using four by simp
  then show ?thesis
    using out m s st four unfolding after by simp
qed

text \<open>
  C4. A second \<open>Print\<close> of the same report writes the bytes that the first one wrote:
  the first call leaves the rows sorted, \<open>sort.Slice\<close> returns sorted rows as they are,
  and nothing else that is printed has changed.
\<close>

theorem Print_twice_same_output:
  assumes "Print r w = (Inr r1, w1)"
  shows "\<exists>out. w1 = w @ out \<and> Print r1 w2 = (Inr r1, w2 @ out)"
proof -
  note np = Print_Inr(1) [OF assms] and r1 = Print_Inr(2) [OF assms] and w1 = Print_Inr(3) [OF assms]
  let ?S = "Slice status_less (Rows (Table r))"
  have rows1: "Rows (Table r1) = ?S"
    by (simp add: r1)
  have sorted: "descending ?S" and perm: "mset ?S = mset (Rows (Table r))"
    using Slice_rows [of "Rows (Table r)"] by simp_all
  have np1: "\<not> sort_panics (Rows (Table r1))"
    using np sort_panics_mset [OF perm] by (simp add: rows1)
  have again: "Slice status_less (Rows (Table r1)) = Rows (Table r1)"
    unfolding rows1 using sorted by (rule Slice_rows_sorted)
  have same: "r1\<lparr>Table := (Table r1)\<lparr>Rows := Rows (Table r1)\<rparr>\<rparr> = r1"
    by simp
  have header: "print_header r1 v = print_header r v" for v
    unfolding r1 by (rule print_header_Rows)
  define out where "out = print_header r [] @ print_rows ?S []"
  have written: "print_rows ?S (print_header r v) = v @ out" for v
    using print_rows_append [of ?S "print_header r v"] print_header_append [of r v]
    by (simp add: out_def)
  have "w1 = w @ out"
    using w1 by (simp add: rows1 written)
  moreover have "Print r1 w2 = (Inr r1, w2 @ out)"
  proof -
    have "Print r1 w2 = (Inr r1, print_rows (Rows (Table r1)) (print_header r1 w2))"
      using Print_ok [OF np1, of w2] unfolding again same .
    also have "print_rows (Rows (Table r1)) (print_header r1 w2) = w2 @ out"
      unfolding header rows1 by (rule written)
    finally show ?thesis .
  qed
  ultimately show ?thesis by blast
qed

theorem Print_twice_same_output_witness:
  "\<exists>r1 out. Print (report_of scenario_C) [] = (Inr r1, out) \<and> Print r1 out = (Inr r1, out @ out)"
proof -
  let ?r = "report_of scenario_C"
  have np: "\<not> sort_panics (Rows (Table ?r))"
    by (simp add: Rows_report_of document_rows_no_panic)
  obtain r1 w1 where p: "Print ?r [] = (Inr r1, w1)"
    using Print_ok [OF np, of "[]"] by blast
  obtain out where "w1 = [] @ out" "Print r1 w1 = (Inr r1, w1 @ out)"
    using Print_twice_same_output [OF p, of w1] by blast
  then show ?thesis using p by auto
qed


end
